theory Spec2Isabelle
  imports Main
begin

section \<open>Runes, errors and the buffered reader\<close>

text \<open>
  A Go \<open>rune\<close> is a Unicode code point. The lexer only ever sees the runes that
  \<open>bufio.Reader.ReadRune\<close> delivers, which are valid code points (an invalid byte
  is delivered as U+FFFD), so a rune is modelled by its code point number and the input by
  the sequence of runes that \<open>ReadRune\<close> will deliver. A character is written
  \<open>rn CHR ''c''\<close>; the tab is \<open>0x09\<close>, the newline \<open>0x0A\<close>, the double quote
  \<open>0x22\<close> and the backslash \<open>0x5C\<close>. A Go string is modelled by the list of its runes
  and a slice of runes inside the lexer by the list of its elements, of which the source
  only reads the length and the elements; the token slice that \<open>Lex\<close> returns to its
  caller is a \<open>slice\<close> below, which tells the nil slice from an empty one. Go's \<open>int\<close>
  has 64 bits; lines and columns are unbounded integers here, since only an input of more
  than \<open>2^63\<close> runes could make them wrap.
\<close>

type_synonym rune = nat

definition rn :: "char \<Rightarrow> rune" where
  "rn c = of_char c"

definition runes :: "string \<Rightarrow> rune list" where
  "runes s = map rn s"

text \<open>
  Go's \<open>error\<close> values that the lexer can meet: the sentinel \<open>io.EOF\<close> (compared
  by identity in the source), \<open>bufio.ErrInvalidUnreadRune\<close>, and any other error,
  known by its message (\<open>errors.New\<close> in \<open>readNumber\<close>, or a failure of the
  underlying file).
\<close>

datatype go_error = io_EOF | ErrInvalidUnreadRune | Err string

fun Error :: "go_error \<Rightarrow> string" where
  "Error io_EOF = ''EOF''"
| "Error ErrInvalidUnreadRune = ''bufio: invalid use of UnreadRune''"
| "Error (Err msg) = msg"

text \<open>
  A run-time panic of the Go program: \<open>panic(err)\<close> with an error value, or the
  run-time error of indexing a slice out of range.
\<close>

datatype panic = PanicErr go_error | IndexOutOfRange

text \<open>
  \<open>bufio.Reader\<close>, as far as \<open>ReadRune\<close> and \<open>UnreadRune\<close> show it: the runes
  not yet read, the error the underlying source reports once they are used up (\<open>io.EOF\<close>
  for a file read to its end, another error for a failing read; every later read reports it
  again), and the rune that the last operation read, if the last operation was a successful
  \<open>ReadRune\<close>. \<open>UnreadRune\<close> fails unless the last operation was one.
\<close>

record bufio_Reader =
  pending :: "rune list"
  ending :: go_error
  lastRune :: "rune option"

definition NewReader :: "rune list \<times> go_error \<Rightarrow> bufio_Reader" where
  "NewReader src = \<lparr>pending = fst src, ending = snd src, lastRune = None\<rparr>"

definition ReadRune :: "bufio_Reader \<Rightarrow> (go_error + rune) \<times> bufio_Reader" where
  "ReadRune b =
     (case pending b of
        [] \<Rightarrow> (Inl (ending b), b\<lparr>lastRune := None\<rparr>)
      | r # rs \<Rightarrow> (Inr r, b\<lparr>pending := rs, lastRune := Some r\<rparr>))"

definition UnreadRune :: "bufio_Reader \<Rightarrow> go_error option \<times> bufio_Reader" where
  "UnreadRune b =
     (case lastRune b of
        None \<Rightarrow> (Some ErrInvalidUnreadRune, b)
      | Some r \<Rightarrow> (None, b\<lparr>pending := r # pending b, lastRune := None\<rparr>))"

section \<open>Tokens\<close>

text \<open>The token types of the source; \<open>STR\<close> is written \<open>STR_tok\<close>, since \<open>STR\<close> is
  reserved syntax of HOL.\<close>

datatype TokenType =
  ILLEGAL | EOF | LBRACE | RBRACE | LBRACKET | RBRACKET | COMMA | COLON
  | STR_tok | NUM | TRUE | FALSE | NULL

record TokenPosition =
  Line :: int
  ColStart :: int
  ColEnd :: int

record Token =
  TokType :: TokenType
  Lexeme :: "rune list"
  TokPos :: TokenPosition

section \<open>The lexer\<close>

text \<open>
  The functions of \<open>lexer.go\<close>, with the lexer passed in and returned where the source
  mutates it through the pointer. \<open>peekForward\<close> is called by none of them and is left
  out. In \<open>createToken\<close>, the runes read from the input come back unchanged from the
  conversion to a string, so that \<open>len([]rune(lexemeStr))\<close> is their number.
\<close>

record LexerPosition =
  Line :: int
  Column :: int

record Lexer =
  Reader :: bufio_Reader
  Pos :: LexerPosition

definition CreateLexer :: "rune list \<times> go_error \<Rightarrow> Lexer" where
  "CreateLexer reader = \<lparr>Reader = NewReader reader, Pos = \<lparr>Line = 1, Column = 0\<rparr>\<rparr>"

definition resetPosition :: "Lexer \<Rightarrow> Lexer" where
  "resetPosition lxr =
     lxr\<lparr>Pos := \<lparr>Line = LexerPosition.Line (Pos lxr) + 1, Column = 0\<rparr>\<rparr>"

definition advanceReader :: "Lexer \<Rightarrow> (go_error + rune) \<times> Lexer" where
  "advanceReader lxr =
     (case ReadRune (Reader lxr) of
        (Inl err, b) \<Rightarrow> (Inl err, lxr\<lparr>Reader := b\<rparr>)
      | (Inr r, b) \<Rightarrow>
          (Inr r, lxr\<lparr>Reader := b, Pos := (Pos lxr)\<lparr>Column := Column (Pos lxr) + 1\<rparr>\<rparr>))"

definition backupReader :: "Lexer \<Rightarrow> panic + Lexer" where
  "backupReader lxr =
     (if Column (Pos lxr) > 0 then
        (case UnreadRune (Reader lxr) of
           (Some err, b) \<Rightarrow> Inl (PanicErr err)
         | (None, b) \<Rightarrow>
             Inr (lxr\<lparr>Reader := b, Pos := (Pos lxr)\<lparr>Column := Column (Pos lxr) - 1\<rparr>\<rparr>))
      else Inr lxr)"

definition createToken :: "TokenType \<Rightarrow> LexerPosition \<Rightarrow> rune list \<Rightarrow> Token" where
  "createToken tokType pos lexemeChars =
     (let lexemeStr = lexemeChars;
          visualWidth = int (length lexemeStr);
          colEnd = Column pos + visualWidth - 1;
          tokenPos = \<lparr>TokenPosition.Line = LexerPosition.Line pos,
                      ColStart = Column pos, ColEnd = colEnd\<rparr>;
          token = \<lparr>TokType = tokType, Lexeme = lexemeStr, TokPos = tokenPos\<rparr>
      in if tokType = EOF
         then token\<lparr>Lexeme := runes ''EOF'',
                    TokPos := (TokPos token)\<lparr>ColEnd := ColStart (TokPos token)\<rparr>\<rparr>
         else token)"

definition isNumberMaybe :: "rune \<Rightarrow> bool" where
  "isNumberMaybe r \<longleftrightarrow>
     (r \<ge> rn CHR ''0'' \<and> r \<le> rn CHR ''9'') \<or> r = rn CHR ''-'' \<or> r = rn CHR ''.''
     \<or> r = rn CHR ''e'' \<or> r = rn CHR ''E''"

subsection \<open>Character classes of Go's \<open>unicode\<close> package\<close>

text \<open>
  \<open>unicode.IsSpace\<close>: in the Latin-1 range the eight characters of its \<open>switch\<close>;
  above it the \<open>White_Space\<close> range table.
\<close>

definition IsSpace :: "rune \<Rightarrow> bool" where
  "IsSpace r \<longleftrightarrow>
     (if r \<le> 0xFF
      then r = 0x09 \<or> r = 0x0A \<or> r = 0x0B \<or> r = 0x0C \<or> r = 0x0D \<or> r = 0x20
           \<or> r = 0x85 \<or> r = 0xA0
      else r = 0x1680 \<or> (0x2000 \<le> r \<and> r \<le> 0x200A) \<or> r = 0x2028 \<or> r = 0x2029
           \<or> r = 0x202F \<or> r = 0x205F \<or> r = 0x3000)"

text \<open>
  \<open>unicode.IsLetter\<close>: in the Latin-1 range the letters of its property table; above
  it the range table of the category Letter, which is not part of this repository and is
  taken as the parameter \<open>L\<close>.
\<close>

definition IsLetter :: "(rune \<Rightarrow> bool) \<Rightarrow> rune \<Rightarrow> bool" where
  "IsLetter L r \<longleftrightarrow>
     (if r \<le> 0xFF
      then (0x41 \<le> r \<and> r \<le> 0x5A) \<or> (0x61 \<le> r \<and> r \<le> 0x7A)
           \<or> r = 0xAA \<or> r = 0xB5 \<or> r = 0xBA
           \<or> (0xC0 \<le> r \<and> r \<le> 0xD6) \<or> (0xD8 \<le> r \<and> r \<le> 0xF6) \<or> 0xF8 \<le> r
      else L r)"

text \<open>
  No code point of the category Letter has the property \<open>White_Space\<close>; a table \<open>L\<close>
  is a letter table only if it respects that.
\<close>

definition letter_table :: "(rune \<Rightarrow> bool) \<Rightarrow> bool" where
  "letter_table L \<longleftrightarrow> (\<forall>r. L r \<longrightarrow> \<not> IsSpace r)"

subsection \<open>The number pattern\<close>

text \<open>
  The fragment of Go's \<open>regexp\<close> syntax that \<open>jsonNumberPattern\<close> uses, and a matcher
  by derivatives. The pattern is anchored by \<open>^\<close> and \<open>$\<close> (no multi-line flag), so
  \<open>MatchString\<close> holds exactly if the whole input matches the pattern between them.
\<close>

datatype regexp =
  Never
  | Empty
  | Lit rune
  | Class rune rune
  | Seq regexp regexp
  | Alt regexp regexp
  | Opt regexp
  | Star regexp
  | Plus regexp

fun nullable :: "regexp \<Rightarrow> bool" where
  "nullable Never = False"
| "nullable Empty = True"
| "nullable (Lit c) = False"
| "nullable (Class lo hi) = False"
| "nullable (Seq a b) = (nullable a \<and> nullable b)"
| "nullable (Alt a b) = (nullable a \<or> nullable b)"
| "nullable (Opt a) = True"
| "nullable (Star a) = True"
| "nullable (Plus a) = nullable a"

fun deriv :: "rune \<Rightarrow> regexp \<Rightarrow> regexp" where
  "deriv r Never = Never"
| "deriv r Empty = Never"
| "deriv r (Lit c) = (if r = c then Empty else Never)"
| "deriv r (Class lo hi) = (if lo \<le> r \<and> r \<le> hi then Empty else Never)"
| "deriv r (Seq a b) =
     (if nullable a then Alt (Seq (deriv r a) b) (deriv r b) else Seq (deriv r a) b)"
| "deriv r (Alt a b) = Alt (deriv r a) (deriv r b)"
| "deriv r (Opt a) = deriv r a"
| "deriv r (Star a) = Seq (deriv r a) (Star a)"
| "deriv r (Plus a) = Seq (deriv r a) (Star a)"

fun MatchString :: "regexp \<Rightarrow> rune list \<Rightarrow> bool" where
  "MatchString re [] = nullable re"
| "MatchString re (r # rs) = MatchString (deriv r re) rs"

definition digit :: regexp where
  "digit = Class (rn CHR ''0'') (rn CHR ''9'')"

definition jsonNumberPattern :: regexp where
  "jsonNumberPattern =
     Seq (Opt (Lit (rn CHR ''-'')))
    (Seq (Alt (Lit (rn CHR ''0'')) (Seq (Class (rn CHR ''1'') (rn CHR ''9'')) (Star digit)))
    (Seq (Opt (Seq (Lit (rn CHR ''.'')) (Plus digit)))
         (Opt (Seq (Alt (Lit (rn CHR ''e'')) (Lit (rn CHR ''E'')))
              (Seq (Opt (Alt (Lit (rn CHR ''+'')) (Lit (rn CHR ''-''))))
                   (Plus digit))))))"

definition isValidJSONNumber :: "rune list \<Rightarrow> bool" where
  "isValidJSONNumber runes_in = (let input = runes_in in MatchString jsonNumberPattern input)"

text \<open>\<open>strings.Contains\<close> on the messages of errors.\<close>

fun HasPrefix :: "string \<Rightarrow> string \<Rightarrow> bool" where
  "HasPrefix s [] = True"
| "HasPrefix [] (p # ps) = False"
| "HasPrefix (c # cs) (p # ps) = (c = p \<and> HasPrefix cs ps)"

fun Contains :: "string \<Rightarrow> string \<Rightarrow> bool" where
  "Contains [] substr = (substr = [])"
| "Contains (c # cs) substr = (HasPrefix (c # cs) substr \<or> Contains cs substr)"

subsection \<open>Numbers\<close>

text \<open>
  The loop of \<open>readNumber\<close>. It ends with \<open>Inr num\<close> at a \<open>break\<close> and with
  \<open>Inl err\<close> at the \<open>return nil, startPos, err\<close> inside it; the panic of
  \<open>backupReader\<close> aborts it.
\<close>

function readNumber_loop :: "Lexer \<Rightarrow> rune list \<Rightarrow> panic + ((go_error + rune list) \<times> Lexer)" where
  "readNumber_loop lxr num =
     (case advanceReader lxr of
        (Inl err, lxr1) \<Rightarrow>
          if err = io_EOF then Inr (Inr num, lxr1) else Inr (Inl err, lxr1)
      | (Inr r, lxr1) \<Rightarrow>
          if IsSpace r \<or> \<not> isNumberMaybe r
          then (case backupReader lxr1 of
                  Inl p \<Rightarrow> Inl p
                | Inr lxr2 \<Rightarrow> Inr (Inr num, lxr2))
          else readNumber_loop lxr1 (num @ [r]))"
  by pat_completeness auto

termination readNumber_loop
  by (relation "measure (\<lambda>(lxr, num). length (pending (Reader lxr)))")
     (auto simp: advanceReader_def ReadRune_def split: list.splits)

definition readNumber :: "Lexer \<Rightarrow> panic + ((rune list \<times> LexerPosition \<times> go_error option) \<times> Lexer)" where
  "readNumber lxr =
     (let startPos = \<lparr>Line = LexerPosition.Line (Pos lxr), Column = Column (Pos lxr) + 1\<rparr>
      in case readNumber_loop lxr [] of
           Inl p \<Rightarrow> Inl p
         | Inr (Inl err, lxr') \<Rightarrow> Inr (([], startPos, Some err), lxr')
         | Inr (Inr num, lxr') \<Rightarrow>
             if \<not> isValidJSONNumber num
             then Inr ((num, startPos, Some (Err ''invalid JSON number'')), lxr')
             else Inr ((num, startPos, None), lxr'))"

definition handleNumberToken :: "Lexer \<Rightarrow> rune \<Rightarrow> panic + (Token \<times> Lexer)" where
  "handleNumberToken lxr r =
     (case backupReader lxr of
        Inl p \<Rightarrow> Inl p
      | Inr lxr1 \<Rightarrow>
         (case readNumber lxr1 of
            Inl p \<Rightarrow> Inl p
          | Inr ((numRune, startPos, err), lxr2) \<Rightarrow>
             (case err of
                Some e \<Rightarrow>
                  if Contains (Error e) ''invalid JSON number''
                  then Inr (createToken ILLEGAL startPos numRune, lxr2)
                  else Inr (createToken ILLEGAL startPos [r], lxr2)
              | None \<Rightarrow> Inr (createToken NUM startPos numRune, lxr2))))"

subsection \<open>Strings\<close>

text \<open>
  The loop of \<open>readString\<close>. When the rune read is a double quote the source evaluates
  \<open>str[len(str)-1]\<close>, which panics on the empty slice.
\<close>

function readString_loop :: "Lexer \<Rightarrow> rune list \<Rightarrow> panic + ((go_error + rune list) \<times> Lexer)" where
  "readString_loop lxr str =
     (case advanceReader lxr of
        (Inl err, lxr1) \<Rightarrow>
          if err = io_EOF then Inr (Inr str, lxr1) else Inr (Inl err, lxr1)
      | (Inr r, lxr1) \<Rightarrow>
          if r = 0x22
          then (if str = [] then Inl IndexOutOfRange
                else if last str \<noteq> 0x5C then Inr (Inr str, lxr1)
                else readString_loop lxr1 (str @ [r]))
          else readString_loop lxr1 (str @ [r]))"
  by pat_completeness auto
termination readString_loop
  by (relation "measure (\<lambda>(lxr, str). length (pending (Reader lxr)))")
     (auto simp: advanceReader_def ReadRune_def split: list.splits)

definition readString :: "Lexer \<Rightarrow> panic + ((rune list \<times> LexerPosition \<times> go_error option) \<times> Lexer)" where
  "readString lxr =
     (let startPos = \<lparr>Line = LexerPosition.Line (Pos lxr), Column = Column (Pos lxr) + 1\<rparr>
      in case readString_loop lxr [] of
           Inl p \<Rightarrow> Inl p
         | Inr (Inl err, lxr') \<Rightarrow> Inr (([], startPos, Some err), lxr')
         | Inr (Inr str, lxr') \<Rightarrow> Inr ((str, startPos, None), lxr'))"

definition handleStringToken :: "Lexer \<Rightarrow> rune \<Rightarrow> panic + (Token \<times> Lexer)" where
  "handleStringToken lxr r =
     (case readString lxr of
        Inl p \<Rightarrow> Inl p
      | Inr ((strRune, startPos, err), lxr1) \<Rightarrow>
          if err \<noteq> None \<or> length strRune = 0
          then Inr (createToken ILLEGAL startPos [r], lxr1)
          else Inr (createToken STR_tok startPos strRune, lxr1))"

subsection \<open>Identifiers\<close>

function readIdentifier_loop :: "(rune \<Rightarrow> bool) \<Rightarrow> Lexer \<Rightarrow> rune list \<Rightarrow> panic + ((go_error + rune list) \<times> Lexer)" where
  "readIdentifier_loop L lxr ident =
     (case advanceReader lxr of
        (Inl err, lxr1) \<Rightarrow>
          if err = io_EOF then Inr (Inr ident, lxr1) else Inr (Inl err, lxr1)
      | (Inr r, lxr1) \<Rightarrow>
          if IsSpace r \<or> \<not> IsLetter L r
          then (case backupReader lxr1 of
                  Inl p \<Rightarrow> Inl p
                | Inr lxr2 \<Rightarrow> Inr (Inr ident, lxr2))
          else readIdentifier_loop L lxr1 (ident @ [r]))"
  by pat_completeness auto
termination readIdentifier_loop
  by (relation "measure (\<lambda>(L, lxr, ident). length (pending (Reader lxr)))")
     (auto simp: advanceReader_def ReadRune_def split: list.splits)

definition readIdentifier :: "(rune \<Rightarrow> bool) \<Rightarrow> Lexer \<Rightarrow> panic + ((rune list \<times> LexerPosition \<times> go_error option) \<times> Lexer)" where
  "readIdentifier L lxr =
     (let startPos = \<lparr>Line = LexerPosition.Line (Pos lxr), Column = Column (Pos lxr) + 1\<rparr>
      in case readIdentifier_loop L lxr [] of
           Inl p \<Rightarrow> Inl p
         | Inr (Inl err, lxr') \<Rightarrow> Inr (([], startPos, Some err), lxr')
         | Inr (Inr ident, lxr') \<Rightarrow> Inr ((ident, startPos, None), lxr'))"

definition handleIdentifierToken :: "(rune \<Rightarrow> bool) \<Rightarrow> Lexer \<Rightarrow> rune \<Rightarrow> panic + (Token \<times> Lexer)" where
  "handleIdentifierToken L lxr r =
     (case backupReader lxr of
        Inl p \<Rightarrow> Inl p
      | Inr lxr1 \<Rightarrow>
         (case readIdentifier L lxr1 of
            Inl p \<Rightarrow> Inl p
          | Inr ((identRune, startPos, err), lxr2) \<Rightarrow>
              if err \<noteq> None then Inr (createToken ILLEGAL startPos [r], lxr2)
              else if identRune = runes ''true'' then Inr (createToken TRUE startPos identRune, lxr2)
              else if identRune = runes ''false'' then Inr (createToken FALSE startPos identRune, lxr2)
              else if identRune = runes ''null'' then Inr (createToken NULL startPos identRune, lxr2)
              else Inr (createToken ILLEGAL startPos identRune, lxr2)))"

subsection \<open>The scanner\<close>

function GetNextToken :: "(rune \<Rightarrow> bool) \<Rightarrow> Lexer \<Rightarrow> panic + (Token \<times> Lexer)" where
  "GetNextToken L lxr =
     (case advanceReader lxr of
        (Inl err, lxr1) \<Rightarrow>
          if err = io_EOF then Inr (createToken EOF (Pos lxr1) [rn CHR ''0''], lxr1)
          else Inl (PanicErr err)
      | (Inr r, lxr1) \<Rightarrow>
          if r = rn CHR '' '' \<or> r = 0x09 then GetNextToken L lxr1
          else if r = rn CHR ''0'' then Inr (createToken EOF (Pos lxr1) [r], lxr1)
          else if r = 0x0A then GetNextToken L (resetPosition lxr1)
          else if r = rn CHR ''{'' then Inr (createToken LBRACE (Pos lxr1) [r], lxr1)
          else if r = rn CHR ''}'' then Inr (createToken RBRACE (Pos lxr1) [r], lxr1)
          else if r = rn CHR ''['' then Inr (createToken LBRACKET (Pos lxr1) [r], lxr1)
          else if r = rn CHR '']'' then Inr (createToken RBRACKET (Pos lxr1) [r], lxr1)
          else if r = rn CHR '','' then Inr (createToken COMMA (Pos lxr1) [r], lxr1)
          else if r = rn CHR '':'' then Inr (createToken COLON (Pos lxr1) [r], lxr1)
          else if r = 0x22 then handleStringToken lxr1 r
          else if isNumberMaybe r then handleNumberToken lxr1 r
          else if IsLetter L r then handleIdentifierToken L lxr1 r
          else Inr (createToken ILLEGAL (Pos lxr1) [r], lxr1))"
  by pat_completeness auto
termination GetNextToken
  by (relation "measure (\<lambda>(L, lxr). length (pending (Reader lxr)))")
     (auto simp: advanceReader_def ReadRune_def resetPosition_def split: list.splits)

subsection \<open>Lexing a file\<close>

text \<open>
  A Go slice as its caller sees it: the nil slice, or a slice that is not nil with its
  elements (\<open>Slice []\<close> is the empty slice \<open>[]Token{}\<close>). Both the nil slice and the
  empty slice have length 0; \<open>append\<close> gives a slice that is not nil.
\<close>

datatype 'a slice = nil_slice | Slice "'a list"

fun elems :: "'a slice \<Rightarrow> 'a list" where
  "elems nil_slice = []"
| "elems (Slice xs) = xs"

definition len :: "'a slice \<Rightarrow> nat" where
  "len s = length (elems s)"

definition is_nil :: "'a slice \<Rightarrow> bool" where
  "is_nil s \<longleftrightarrow> s = nil_slice"

definition append_slice :: "'a slice \<Rightarrow> 'a \<Rightarrow> 'a slice" where
  "append_slice s x = Slice (elems s @ [x])"

text \<open>
  The loop of \<open>Lex\<close> has no bound of its own: it runs until \<open>GetNextToken\<close> returns an
  EOF token.
\<close>

partial_function (option) Lex_loop :: "(rune \<Rightarrow> bool) \<Rightarrow> Lexer \<Rightarrow> Token slice \<Rightarrow> (panic + Token slice) option" where
  "Lex_loop L lxr tokens =
     (case GetNextToken L lxr of
        Inl p \<Rightarrow> Some (Inl p)
      | Inr (tok, lxr') \<Rightarrow>
          if TokType tok = EOF then Some (Inr tokens)
          else Lex_loop L lxr' (append_slice tokens tok))"

declare Lex_loop.simps [code]

text \<open>
  \<open>os.Open\<close> on a file system that gives, for a path, either the error of opening it or
  the file: the runes of its content and the error that ends reading it. \<open>Lex\<close> returns
  its token slice together with the lines it printed to standard output: the empty slice
  \<open>[]Token{}\<close> when the file does not open, and otherwise the variable \<open>tokens\<close>, which
  is declared without a value (the nil slice) and appended to in the loop.
\<close>

type_synonym file_system = "string \<Rightarrow> go_error + rune list \<times> go_error"

definition os_Open :: "file_system \<Rightarrow> string \<Rightarrow> go_error + rune list \<times> go_error" where
  "os_Open fs filePath = fs filePath"

definition Lex :: "(rune \<Rightarrow> bool) \<Rightarrow> file_system \<Rightarrow> string \<Rightarrow> (panic + string list \<times> Token slice) option" where
  "Lex L fs filePath =
     (case os_Open fs filePath of
        Inl err \<Rightarrow> Some (Inr ([''Error opening file: '' @ Error err], Slice []))
      | Inr file \<Rightarrow>
          (case Lex_loop L (CreateLexer file) nil_slice of
             None \<Rightarrow> None
           | Some (Inl p) \<Rightarrow> Some (Inl p)
           | Some (Inr tokens) \<Rightarrow> Some (Inr ([], tokens))))"

section \<open>Notions used to state the properties\<close>

text \<open>The runes that the main loop of \<open>GetNextToken\<close> skips: space, tab and newline.\<close>

definition blank :: "rune \<Rightarrow> bool" where
  "blank r \<longleftrightarrow> r = 0x20 \<or> r = 0x09 \<or> r = 0x0A"

text \<open>
  The position of the scanner's cursor after the main loop of \<open>GetNextToken\<close> has gone
  over the given runes from the given position: \<open>advanceReader\<close> adds one to the column
  and \<open>resetPosition\<close>, at a newline, starts the next line at column 0.
\<close>

fun cursor :: "LexerPosition \<Rightarrow> rune list \<Rightarrow> LexerPosition" where
  "cursor pos [] = pos"
| "cursor pos (r # rs) =
     cursor (if r = 0x0A then \<lparr>Line = LexerPosition.Line pos + 1, Column = 0\<rparr>
             else pos\<lparr>Column := Column pos + 1\<rparr>) rs"

text \<open>
  The input on which \<open>readString\<close> indexes its empty slice: after blanks, a double
  quote directly followed by a double quote.
\<close>

definition opens_empty_string :: "rune list \<Rightarrow> bool" where
  "opens_empty_string rs \<longleftrightarrow>
     (\<exists>ws rest. (\<forall>r \<in> set ws. blank r) \<and> rs = ws @ 0x22 # 0x22 # rest)"

text \<open>
  A piece of the Letter table above Latin-1, the Greek capital and small letters, for
  running the lexer on concrete inputs.
\<close>

definition greek :: "rune \<Rightarrow> bool" where
  "greek r \<longleftrightarrow> (0x391 \<le> r \<and> r \<le> 0x3A1) \<or> (0x3A3 \<le> r \<and> r \<le> 0x3A9) \<or> (0x3B1 \<le> r \<and> r \<le> 0x3C9)"

text \<open>
  Two file systems for running \<open>Lex\<close>: one in which no path opens, and one in which
  every path is an empty file.
\<close>

definition no_files :: file_system where
  "no_files p = Inl (Err (''open '' @ p @ '': no such file or directory''))"

definition empty_files :: file_system where
  "empty_files p = Inr ([], io_EOF)"

declare GetNextToken.simps [simp del] readNumber_loop.simps [simp del]
  readString_loop.simps [simp del] readIdentifier_loop.simps [simp del]

lemmas lexer_defs =
  CreateLexer_def NewReader_def runes_def rn_def advanceReader_def ReadRune_def
  createToken_def handleNumberToken_def backupReader_def UnreadRune_def readNumber_def
  isNumberMaybe_def IsSpace_def isValidJSONNumber_def jsonNumberPattern_def digit_def
  IsLetter_def handleStringToken_def readString_def handleIdentifierToken_def
  readIdentifier_def resetPosition_def GetNextToken.simps readNumber_loop.simps
  readString_loop.simps readIdentifier_loop.simps

section \<open>Steps of the reader\<close>

lemma advanceReader_Inr:
  "advanceReader lxr = (Inr r, lxr1) \<Longrightarrow>
     pending (Reader lxr) = r # pending (Reader lxr1) \<and> lastRune (Reader lxr1) = Some r
     \<and> ending (Reader lxr1) = ending (Reader lxr)
     \<and> Pos lxr1 = (Pos lxr)\<lparr>Column := Column (Pos lxr) + 1\<rparr>"
  by (auto simp: advanceReader_def ReadRune_def split: list.splits)

lemma advanceReader_Inl:
  "advanceReader lxr = (Inl e, lxr1) \<Longrightarrow>
     pending (Reader lxr) = [] \<and> e = ending (Reader lxr) \<and> pending (Reader lxr1) = []
     \<and> ending (Reader lxr1) = ending (Reader lxr) \<and> Pos lxr1 = Pos lxr"
  by (auto simp: advanceReader_def ReadRune_def split: list.splits)

lemma backupReader_after_read:
  "lastRune (Reader lxr1) = Some r \<Longrightarrow>
     \<exists>lxr2. backupReader lxr1 = Inr lxr2 \<and> ending (Reader lxr2) = ending (Reader lxr1)
       \<and> (if 0 < Column (Pos lxr1)
           then pending (Reader lxr2) = r # pending (Reader lxr1)
                \<and> Pos lxr2 = (Pos lxr1)\<lparr>Column := Column (Pos lxr1) - 1\<rparr>
           else lxr2 = lxr1)"
  by (simp add: backupReader_def UnreadRune_def)

section \<open>The scanners return\<close>

lemma readNumber_loop_returns:
  "\<exists>res lxr'. readNumber_loop lxr num = Inr (res, lxr')"
proof (induction lxr num rule: readNumber_loop.induct)
  case (1 lxr num)
  obtain res lxr1 where adv: "advanceReader lxr = (res, lxr1)"
    by (cases "advanceReader lxr")
  show ?case
  proof (cases res)
    case (Inl err)
    with adv show ?thesis
      by (simp add: readNumber_loop.simps [of lxr])
  next
    case (Inr r)
    show ?thesis
    proof (cases "IsSpace r \<or> \<not> isNumberMaybe r")
      case True
      from adv Inr have "lastRune (Reader lxr1) = Some r"
        by (simp add: advanceReader_Inr)
      then obtain lxr2 where "backupReader lxr1 = Inr lxr2"
        using backupReader_after_read by blast
      with adv Inr True show ?thesis
        by (simp add: readNumber_loop.simps [of lxr])
    next
      case False
      with adv Inr "1.IH" [of res lxr1 r] show ?thesis
        by (simp add: readNumber_loop.simps [of lxr])
    qed
  qed
qed

lemma readIdentifier_loop_returns:
  "\<exists>res lxr'. readIdentifier_loop L lxr ident = Inr (res, lxr')"
proof (induction L lxr ident rule: readIdentifier_loop.induct)
  case (1 L lxr ident)
  obtain res lxr1 where adv: "advanceReader lxr = (res, lxr1)"
    by (cases "advanceReader lxr")
  show ?case
  proof (cases res)
    case (Inl err)
    with adv show ?thesis
      by (simp add: readIdentifier_loop.simps [of L lxr])
  next
    case (Inr r)
    show ?thesis
    proof (cases "IsSpace r \<or> \<not> IsLetter L r")
      case True
      from adv Inr have "lastRune (Reader lxr1) = Some r"
        by (simp add: advanceReader_Inr)
      then obtain lxr2 where "backupReader lxr1 = Inr lxr2"
        using backupReader_after_read by blast
      with adv Inr True show ?thesis
        by (simp add: readIdentifier_loop.simps [of L lxr])
    next
      case False
      with adv Inr "1.IH" [of res lxr1 r] show ?thesis
        by (simp add: readIdentifier_loop.simps [of L lxr])
    qed
  qed
qed

lemma readString_loop_returns:
  "str \<noteq> [] \<Longrightarrow> \<exists>res lxr'. readString_loop lxr str = Inr (res, lxr')"
proof (induction lxr str rule: readString_loop.induct)
  case (1 lxr str)
  obtain res lxr1 where adv: "advanceReader lxr = (res, lxr1)"
    by (cases "advanceReader lxr")
  show ?case
  proof (cases res)
    case (Inl err)
    with adv show ?thesis
      by (simp add: readString_loop.simps [of lxr])
  next
    case (Inr r)
    have step: "str @ [r] \<noteq> []" by simp
    show ?thesis
    proof (cases "r = 0x22")
      case True
      show ?thesis
      proof (cases "last str \<noteq> 0x5C")
        case True
        with adv Inr \<open>r = 0x22\<close> "1.prems" show ?thesis
          by (simp add: readString_loop.simps [of lxr])
      next
        case False
        with adv Inr True "1.prems" "1.IH"(1) [of res lxr1 r, OF _ _ _ _ _ step]
        show ?thesis
          by (simp add: readString_loop.simps [of lxr])
      qed
    next
      case False
      with adv Inr "1.IH"(2) [of res lxr1 r, OF _ _ _ step] show ?thesis
        by (simp add: readString_loop.simps [of lxr])
    qed
  qed
qed

lemma readString_loop_start:
  "advanceReader lxr = (Inr r, lxr1) \<Longrightarrow>
     readString_loop lxr [] =
       (if r = 0x22 then Inl IndexOutOfRange else readString_loop lxr1 [r])"
  by (simp add: readString_loop.simps [of lxr "[]"])

lemma handleStringToken_returns:
  assumes "\<And>rs. pending (Reader lxr) \<noteq> 0x22 # rs"
  shows "\<exists>tok lxr'. handleStringToken lxr r = Inr (tok, lxr')"
proof -
  obtain res lxr1 where adv: "advanceReader lxr = (res, lxr1)"
    by (cases "advanceReader lxr")
  show ?thesis
  proof (cases res)
    case (Inl err)
    with adv show ?thesis
      by (simp add: handleStringToken_def readString_def readString_loop.simps [of lxr "[]"])
  next
    case (Inr q)
    with adv assms have q: "q \<noteq> 0x22"
      by (auto dest: advanceReader_Inr)
    obtain res' lxr' where "readString_loop lxr1 [q] = Inr (res', lxr')"
      using readString_loop_returns [of "[q]"] by fastforce
    with adv Inr q have "readString_loop lxr [] = Inr (res', lxr')"
      by (simp add: readString_loop_start)
    then show ?thesis
      by (cases res') (simp_all add: handleStringToken_def readString_def)
  qed
qed

lemma handleStringToken_panics:
  assumes "pending (Reader lxr) = 0x22 # rs"
  shows "handleStringToken lxr r = Inl IndexOutOfRange"
proof -
  from assms obtain lxr1 where "advanceReader lxr = (Inr 0x22, lxr1)"
    by (simp add: advanceReader_def ReadRune_def)
  then show ?thesis
    by (simp add: handleStringToken_def readString_def readString_loop_start)
qed

lemma handleNumberToken_returns:
  assumes "lastRune (Reader lxr) = Some q"
  shows "\<exists>tok lxr'. handleNumberToken lxr r = Inr (tok, lxr')"
proof -
  obtain lxr1 where b: "backupReader lxr = Inr lxr1"
    using backupReader_after_read [OF assms] by blast
  obtain res lxr2 where "readNumber_loop lxr1 [] = Inr (res, lxr2)"
    using readNumber_loop_returns by blast
  with b show ?thesis
    by (cases res) (simp_all add: handleNumberToken_def readNumber_def Let_def)
qed

lemma handleIdentifierToken_returns:
  assumes "lastRune (Reader lxr) = Some q"
  shows "\<exists>tok lxr'. handleIdentifierToken L lxr r = Inr (tok, lxr')"
proof -
  obtain lxr1 where b: "backupReader lxr = Inr lxr1"
    using backupReader_after_read [OF assms] by blast
  obtain res lxr2 where "readIdentifier_loop L lxr1 [] = Inr (res, lxr2)"
    using readIdentifier_loop_returns by blast
  with b show ?thesis
    by (cases res) (simp_all add: handleIdentifierToken_def readIdentifier_def Let_def)
qed


section \<open>One step of the main loop\<close>

lemma GetNextToken_Inl:
  "advanceReader lxr = (Inl err, lxr1) \<Longrightarrow>
     GetNextToken L lxr =
       (if err = io_EOF then Inr (createToken EOF (Pos lxr1) [rn CHR ''0''], lxr1)
        else Inl (PanicErr err))"
  by (simp add: GetNextToken.simps [of L lxr])

lemma GetNextToken_skip:
  "advanceReader lxr = (Inr r, lxr1) \<Longrightarrow> r = 0x20 \<or> r = 0x09 \<Longrightarrow>
     GetNextToken L lxr = GetNextToken L lxr1"
  by (auto simp: GetNextToken.simps [of L lxr] rn_def)

lemma GetNextToken_newline:
  "advanceReader lxr = (Inr 0x0A, lxr1) \<Longrightarrow>
     GetNextToken L lxr = GetNextToken L (resetPosition lxr1)"
  by (simp add: GetNextToken.simps [of L lxr] rn_def)

lemma GetNextToken_token:
  "advanceReader lxr = (Inr r, lxr1) \<Longrightarrow> \<not> blank r \<Longrightarrow>
     GetNextToken L lxr =
       (if r = rn CHR ''0'' then Inr (createToken EOF (Pos lxr1) [r], lxr1)
        else if r = rn CHR ''{'' then Inr (createToken LBRACE (Pos lxr1) [r], lxr1)
        else if r = rn CHR ''}'' then Inr (createToken RBRACE (Pos lxr1) [r], lxr1)
        else if r = rn CHR ''['' then Inr (createToken LBRACKET (Pos lxr1) [r], lxr1)
        else if r = rn CHR '']'' then Inr (createToken RBRACKET (Pos lxr1) [r], lxr1)
        else if r = rn CHR '','' then Inr (createToken COMMA (Pos lxr1) [r], lxr1)
        else if r = rn CHR '':'' then Inr (createToken COLON (Pos lxr1) [r], lxr1)
        else if r = 0x22 then handleStringToken lxr1 r
        else if isNumberMaybe r then handleNumberToken lxr1 r
        else if IsLetter L r then handleIdentifierToken L lxr1 r
        else Inr (createToken ILLEGAL (Pos lxr1) [r], lxr1))"
  by (simp add: GetNextToken.simps [of L lxr] rn_def blank_def)

lemma resetPosition_simps:
  "Reader (resetPosition lxr) = Reader lxr"
  "Pos (resetPosition lxr) = \<lparr>Line = LexerPosition.Line (Pos lxr) + 1, Column = 0\<rparr>"
  by (simp_all add: resetPosition_def)

lemma opens_empty_string_Nil: "\<not> opens_empty_string []"
  by (simp add: opens_empty_string_def)

lemma opens_empty_string_Cons:
  "opens_empty_string (r # rs) \<longleftrightarrow>
     (if blank r then opens_empty_string rs else r = 0x22 \<and> (\<exists>rest. rs = 0x22 # rest))"
proof (cases "blank r")
  case True
  have "opens_empty_string (r # rs) \<longleftrightarrow> opens_empty_string rs"
  proof
    assume "opens_empty_string (r # rs)"
    then obtain ws rest where ws: "\<forall>q \<in> set ws. blank q" "r # rs = ws @ 0x22 # 0x22 # rest"
      by (auto simp: opens_empty_string_def)
    with True obtain ws' where "ws = r # ws'"
      by (cases ws) (auto simp: blank_def)
    with ws show "opens_empty_string rs"
      by (auto simp: opens_empty_string_def)
  next
    assume "opens_empty_string rs"
    then obtain ws rest where "\<forall>q \<in> set ws. blank q" "rs = ws @ 0x22 # 0x22 # rest"
      by (auto simp: opens_empty_string_def)
    with True have "\<forall>q \<in> set (r # ws). blank q" "r # rs = (r # ws) @ 0x22 # 0x22 # rest"
      by simp_all
    then show "opens_empty_string (r # rs)"
      unfolding opens_empty_string_def by blast
  qed
  with True show ?thesis by simp
next
  case False
  have "opens_empty_string (r # rs) \<longleftrightarrow> r = 0x22 \<and> (\<exists>rest. rs = 0x22 # rest)"
  proof
    assume "opens_empty_string (r # rs)"
    then obtain ws rest where ws: "\<forall>q \<in> set ws. blank q" "r # rs = ws @ 0x22 # 0x22 # rest"
      by (auto simp: opens_empty_string_def)
    with False have "ws = []"
      by (cases ws) auto
    with ws show "r = 0x22 \<and> (\<exists>rest. rs = 0x22 # rest)"
      by simp
  next
    assume "r = 0x22 \<and> (\<exists>rest. rs = 0x22 # rest)"
    then obtain rest where "r # rs = [] @ 0x22 # 0x22 # rest"
      by auto
    then show "opens_empty_string (r # rs)"
      unfolding opens_empty_string_def by (metis empty_iff empty_set)
  qed
  with False show ?thesis by simp
qed

lemma GetNextToken_outcome:
  "\<not> opens_empty_string (pending (Reader lxr)) \<Longrightarrow>
     (if (\<forall>r \<in> set (pending (Reader lxr)). blank r) \<and> ending (Reader lxr) \<noteq> io_EOF
      then GetNextToken L lxr = Inl (PanicErr (ending (Reader lxr)))
      else \<exists>tok lxr'. GetNextToken L lxr = Inr (tok, lxr'))"
proof (induction L lxr rule: GetNextToken.induct)
  case (1 L lxr)
  obtain res lxr1 where adv: "advanceReader lxr = (res, lxr1)"
    by (cases "advanceReader lxr")
  show ?case
  proof (cases res)
    case (Inl err)
    with adv show ?thesis
      by (auto simp: GetNextToken_Inl dest: advanceReader_Inl)
  next
    case (Inr r)
    with adv have adv': "advanceReader lxr = (Inr r, lxr1)" by simp
    note rd = advanceReader_Inr [OF adv']
    show ?thesis
    proof (cases "blank r")
      case True
      from True rd "1.prems" have no: "\<not> opens_empty_string (pending (Reader lxr1))"
        by (simp add: opens_empty_string_Cons)
      show ?thesis
      proof (cases "r = 0x0A")
        case False
        with True have sp: "r = 0x20 \<or> r = 0x09" by (simp add: blank_def)
        then have "r = rn CHR '' '' \<or> r = 9" by (simp add: rn_def)
        from "1.IH"(1) [OF adv [symmetric] Inr this no] True rd sp adv' show ?thesis
          by (simp add: GetNextToken_skip)
      next
        case nl: True
        have "\<not> (r = rn CHR '' '' \<or> r = 9)" "r \<noteq> rn CHR ''0''"
          using nl by (simp_all add: rn_def)
        from "1.IH"(2) [OF adv [symmetric] Inr this nl] no True rd nl adv' show ?thesis
          by (simp add: GetNextToken_newline resetPosition_simps)
      qed
    next
      case False
      have str: "\<exists>tok lxr'. handleStringToken lxr1 r = Inr (tok, lxr')" if "r = 0x22"
      proof (rule handleStringToken_returns)
        fix rs
        from that False rd "1.prems" show "pending (Reader lxr1) \<noteq> 0x22 # rs"
          by (auto simp: opens_empty_string_Cons)
      qed
      from str handleNumberToken_returns [of lxr1 r r]
        handleIdentifierToken_returns [of lxr1 r L r] False rd
      show ?thesis
        by (auto simp: GetNextToken_token [OF adv' False])
    qed
  qed
qed


section \<open>Reading one rune; fields of a token\<close>

lemma advanceReader_Cons:
  "pending (Reader lxr) = r # rs \<Longrightarrow>
     \<exists>lxr1. advanceReader lxr = (Inr r, lxr1) \<and> pending (Reader lxr1) = rs
       \<and> ending (Reader lxr1) = ending (Reader lxr) \<and> lastRune (Reader lxr1) = Some r
       \<and> Pos lxr1 = (Pos lxr)\<lparr>Column := Column (Pos lxr) + 1\<rparr>"
  by (simp add: advanceReader_def ReadRune_def)

lemma createToken_simps:
  "TokType (createToken t pos xs) = t"
  "t \<noteq> EOF \<Longrightarrow> Lexeme (createToken t pos xs) = xs"
  "TokenPosition.Line (TokPos (createToken t pos xs)) = LexerPosition.Line pos"
  "ColStart (TokPos (createToken t pos xs)) = Column pos"
  "t \<noteq> EOF \<Longrightarrow> ColEnd (TokPos (createToken t pos xs)) = Column pos + int (length xs) - 1"
  by (simp_all add: createToken_def Let_def)

section \<open>What the scanners collect\<close>

lemma readNumber_loop_content:
  "0 \<le> Column (Pos lxr) \<Longrightarrow> readNumber_loop lxr num = Inr (Inr num', lxr') \<Longrightarrow>
     \<exists>cs. num' = num @ cs \<and> pending (Reader lxr) = cs @ pending (Reader lxr')"
proof (induction lxr num rule: readNumber_loop.induct)
  case (1 lxr num)
  obtain res lxr1 where adv: "advanceReader lxr = (res, lxr1)"
    by (cases "advanceReader lxr")
  show ?case
  proof (cases res)
    case (Inl err)
    with adv "1.prems"(2) show ?thesis
      by (auto simp: readNumber_loop.simps [of lxr] dest: advanceReader_Inl split: if_splits)
  next
    case (Inr r)
    with adv have adv': "advanceReader lxr = (Inr r, lxr1)" by simp
    note rd = advanceReader_Inr [OF adv']
    show ?thesis
    proof (cases "IsSpace r \<or> \<not> isNumberMaybe r")
      case True
      from rd "1.prems"(1) have col: "0 < Column (Pos lxr1)" by simp
      from rd backupReader_after_read [of lxr1 r] col obtain lxr2 where
        "backupReader lxr1 = Inr lxr2" "pending (Reader lxr2) = r # pending (Reader lxr1)"
        by auto
      with adv' True "1.prems"(2) rd show ?thesis
        by (auto simp: readNumber_loop.simps [of lxr])
    next
      case False
      from rd "1.prems"(1) have col: "0 \<le> Column (Pos lxr1)" by simp
      from adv' False "1.prems"(2) have "readNumber_loop lxr1 (num @ [r]) = Inr (Inr num', lxr')"
        by (simp add: readNumber_loop.simps [of lxr])
      from "1.IH" [OF adv [symmetric] Inr False col this] rd show ?thesis
        by auto
    qed
  qed
qed

lemma readIdentifier_loop_content:
  "0 \<le> Column (Pos lxr) \<Longrightarrow> readIdentifier_loop L lxr ident = Inr (Inr ident', lxr') \<Longrightarrow>
     \<exists>cs. ident' = ident @ cs \<and> pending (Reader lxr) = cs @ pending (Reader lxr')"
proof (induction L lxr ident rule: readIdentifier_loop.induct)
  case (1 L lxr ident)
  obtain res lxr1 where adv: "advanceReader lxr = (res, lxr1)"
    by (cases "advanceReader lxr")
  show ?case
  proof (cases res)
    case (Inl err)
    with adv "1.prems"(2) show ?thesis
      by (auto simp: readIdentifier_loop.simps [of L lxr] dest: advanceReader_Inl split: if_splits)
  next
    case (Inr r)
    with adv have adv': "advanceReader lxr = (Inr r, lxr1)" by simp
    note rd = advanceReader_Inr [OF adv']
    show ?thesis
    proof (cases "IsSpace r \<or> \<not> IsLetter L r")
      case True
      from rd "1.prems"(1) have col: "0 < Column (Pos lxr1)" by simp
      from rd backupReader_after_read [of lxr1 r] col obtain lxr2 where
        "backupReader lxr1 = Inr lxr2" "pending (Reader lxr2) = r # pending (Reader lxr1)"
        by auto
      with adv' True "1.prems"(2) rd show ?thesis
        by (auto simp: readIdentifier_loop.simps [of L lxr])
    next
      case False
      from rd "1.prems"(1) have col: "0 \<le> Column (Pos lxr1)" by simp
      from adv' False "1.prems"(2)
      have "readIdentifier_loop L lxr1 (ident @ [r]) = Inr (Inr ident', lxr')"
        by (simp add: readIdentifier_loop.simps [of L lxr])
      from "1.IH" [OF adv [symmetric] Inr False col this] rd show ?thesis
        by auto
    qed
  qed
qed

lemma readString_loop_content:
  "readString_loop lxr str = Inr (Inr str', lxr') \<Longrightarrow>
     \<exists>cs rest. str' = str @ cs \<and> pending (Reader lxr) = cs @ rest"
proof (induction lxr str rule: readString_loop.induct)
  case (1 lxr str)
  obtain res lxr1 where adv: "advanceReader lxr = (res, lxr1)"
    by (cases "advanceReader lxr")
  show ?case
  proof (cases res)
    case (Inl err)
    with adv "1.prems" show ?thesis
      by (auto simp: readString_loop.simps [of lxr] split: if_splits)
  next
    case (Inr r)
    with adv have adv': "advanceReader lxr = (Inr r, lxr1)" by simp
    note rd = advanceReader_Inr [OF adv']
    consider (close) "r = 0x22" "str \<noteq> []" "last str \<noteq> 0x5C"
      | (escaped) "r = 0x22" "str \<noteq> []" "\<not> last str \<noteq> 0x5C"
      | (other) "r \<noteq> 0x22"
      | (empty) "r = 0x22" "str = []"
      by blast
    then show ?thesis
    proof cases
      case close
      with adv' "1.prems" show ?thesis
        by (simp add: readString_loop.simps [of lxr])
    next
      case escaped
      with adv' "1.prems" have "readString_loop lxr1 (str @ [r]) = Inr (Inr str', lxr')"
        by (simp add: readString_loop.simps [of lxr])
      from "1.IH"(1) [OF adv [symmetric] Inr escaped this] rd show ?thesis
        by auto
    next
      case other
      with adv' "1.prems" have "readString_loop lxr1 (str @ [r]) = Inr (Inr str', lxr')"
        by (simp add: readString_loop.simps [of lxr])
      from "1.IH"(2) [OF adv [symmetric] Inr other this] rd show ?thesis
        by auto
    next
      case empty
      with adv' "1.prems" show ?thesis
        by (simp add: readString_loop.simps [of lxr])
    qed
  qed
qed


section \<open>Positions\<close>

lemma handleStringToken_position:
  assumes "handleStringToken lxr1 r = Inr (tok, lxr')" and "1 < length (Lexeme tok)"
  shows "TokType tok = STR_tok \<and> (\<exists>rest. pending (Reader lxr1) = Lexeme tok @ rest)
         \<and> TokenPosition.Line (TokPos tok) = LexerPosition.Line (Pos lxr1)
         \<and> ColStart (TokPos tok) = Column (Pos lxr1) + 1"
proof (cases "readString_loop lxr1 []")
  case (Inl p)
  with assms show ?thesis
    by (simp add: handleStringToken_def readString_def)
next
  case (Inr a)
  obtain res lxr2 where a: "a = (res, lxr2)" by (cases a)
  show ?thesis
  proof (cases res)
    case (Inl err)
    with Inr a assms show ?thesis
      by (auto simp: handleStringToken_def readString_def createToken_simps)
  next
    case (Inr str)
    with \<open>readString_loop lxr1 [] = Inr a\<close> a
    have loop: "readString_loop lxr1 [] = Inr (Inr str, lxr2)" by simp
    from readString_loop_content [OF loop] obtain rest where
      "pending (Reader lxr1) = str @ rest" by auto
    with loop assms show ?thesis
      by (auto simp: handleStringToken_def readString_def createToken_simps split: if_splits)
  qed
qed

lemma handleNumberToken_position:
  assumes "handleNumberToken lxr1 r = Inr (tok, lxr')" and "1 < length (Lexeme tok)"
    and "lastRune (Reader lxr1) = Some r" and "0 < Column (Pos lxr1)"
  shows "TokType tok \<noteq> STR_tok \<and> (\<exists>rest. r # pending (Reader lxr1) = Lexeme tok @ rest)
         \<and> TokenPosition.Line (TokPos tok) = LexerPosition.Line (Pos lxr1)
         \<and> ColStart (TokPos tok) = Column (Pos lxr1)"
proof -
  from backupReader_after_read [OF assms(3)] assms(4) obtain lxr2 where
    b: "backupReader lxr1 = Inr lxr2" and p2: "pending (Reader lxr2) = r # pending (Reader lxr1)"
    and pos2: "Pos lxr2 = (Pos lxr1)\<lparr>Column := Column (Pos lxr1) - 1\<rparr>"
    by auto
  from pos2 assms(4) have col2: "0 \<le> Column (Pos lxr2)" by simp
  show ?thesis
  proof (cases "readNumber_loop lxr2 []")
    case (Inl p)
    with b assms(1) show ?thesis
      by (simp add: handleNumberToken_def readNumber_def)
  next
    case (Inr a)
    obtain res lxr3 where a: "a = (res, lxr3)" by (cases a)
    show ?thesis
    proof (cases res)
      case (Inl err)
      with Inr a b assms(1,2) show ?thesis
        by (auto simp: handleNumberToken_def readNumber_def createToken_simps Let_def split: if_splits)
    next
      case (Inr num)
      with \<open>readNumber_loop lxr2 [] = Inr a\<close> a
      have loop: "readNumber_loop lxr2 [] = Inr (Inr num, lxr3)" by simp
      from readNumber_loop_content [OF col2 loop] p2
      have "r # pending (Reader lxr1) = num @ pending (Reader lxr3)" by simp
      with loop b assms(1,2) pos2 show ?thesis
        by (auto simp: handleNumberToken_def readNumber_def createToken_simps Let_def split: if_splits)
    qed
  qed
qed

lemma handleIdentifierToken_position:
  assumes "handleIdentifierToken L lxr1 r = Inr (tok, lxr')" and "1 < length (Lexeme tok)"
    and "lastRune (Reader lxr1) = Some r" and "0 < Column (Pos lxr1)"
  shows "TokType tok \<noteq> STR_tok \<and> (\<exists>rest. r # pending (Reader lxr1) = Lexeme tok @ rest)
         \<and> TokenPosition.Line (TokPos tok) = LexerPosition.Line (Pos lxr1)
         \<and> ColStart (TokPos tok) = Column (Pos lxr1)"
proof -
  from backupReader_after_read [OF assms(3)] assms(4) obtain lxr2 where
    b: "backupReader lxr1 = Inr lxr2" and p2: "pending (Reader lxr2) = r # pending (Reader lxr1)"
    and pos2: "Pos lxr2 = (Pos lxr1)\<lparr>Column := Column (Pos lxr1) - 1\<rparr>"
    by auto
  from pos2 assms(4) have col2: "0 \<le> Column (Pos lxr2)" by simp
  show ?thesis
  proof (cases "readIdentifier_loop L lxr2 []")
    case (Inl p)
    with b assms(1) show ?thesis
      by (simp add: handleIdentifierToken_def readIdentifier_def)
  next
    case (Inr a)
    obtain res lxr3 where a: "a = (res, lxr3)" by (cases a)
    show ?thesis
    proof (cases res)
      case (Inl err)
      with Inr a b assms(1,2) show ?thesis
        by (auto simp: handleIdentifierToken_def readIdentifier_def createToken_simps Let_def
            split: if_splits)
    next
      case (Inr ident)
      with \<open>readIdentifier_loop L lxr2 [] = Inr a\<close> a
      have loop: "readIdentifier_loop L lxr2 [] = Inr (Inr ident, lxr3)" by simp
      from readIdentifier_loop_content [OF col2 loop] p2
      have "r # pending (Reader lxr1) = ident @ pending (Reader lxr3)" by simp
      with loop b assms(1,2) pos2 show ?thesis
        by (auto simp: handleIdentifierToken_def readIdentifier_def createToken_simps Let_def
            split: if_splits)
    qed
  qed
qed


lemma handleStringToken_createToken:
  "handleStringToken lxr r = Inr (tok, lxr') \<Longrightarrow> \<exists>t pos xs. tok = createToken t pos xs"
  by (auto simp: handleStringToken_def readString_def Let_def
      split: sum.splits prod.splits if_splits)

lemma handleNumberToken_createToken:
  "handleNumberToken lxr r = Inr (tok, lxr') \<Longrightarrow> \<exists>t pos xs. tok = createToken t pos xs"
  by (auto simp: handleNumberToken_def readNumber_def Let_def
      split: sum.splits prod.splits option.splits if_splits)

lemma handleIdentifierToken_createToken:
  "handleIdentifierToken L lxr r = Inr (tok, lxr') \<Longrightarrow> \<exists>t pos xs. tok = createToken t pos xs"
  by (auto simp: handleIdentifierToken_def readIdentifier_def Let_def
      split: sum.splits prod.splits if_splits)

lemma GetNextToken_createToken:
  "GetNextToken L lxr = Inr (tok, lxr') \<Longrightarrow> \<exists>t pos xs. tok = createToken t pos xs"
proof (induction L lxr rule: GetNextToken.induct)
  case (1 L lxr)
  obtain res lxr1 where adv: "advanceReader lxr = (res, lxr1)"
    by (cases "advanceReader lxr")
  show ?case
  proof (cases res)
    case (Inl err)
    with adv "1.prems" show ?thesis
      by (auto simp: GetNextToken_Inl split: if_splits)
  next
    case (Inr r)
    with adv have adv': "advanceReader lxr = (Inr r, lxr1)" by simp
    show ?thesis
    proof (cases "blank r")
      case True
      show ?thesis
      proof (cases "r = 0x0A")
        case False
        with True have sp: "r = 0x20 \<or> r = 0x09" by (simp add: blank_def)
        then have sp': "r = rn CHR '' '' \<or> r = 9" by (simp add: rn_def)
        from "1.prems" have "GetNextToken L lxr1 = Inr (tok, lxr')"
          by (simp add: GetNextToken_skip [OF adv' sp])
        from "1.IH"(1) [OF adv [symmetric] Inr sp' this] show ?thesis .
      next
        case nl: True
        have c: "\<not> (r = rn CHR '' '' \<or> r = 9)" "r \<noteq> rn CHR ''0''"
          using nl by (simp_all add: rn_def)
        from "1.prems" adv' nl have "GetNextToken L (resetPosition lxr1) = Inr (tok, lxr')"
          by (simp add: GetNextToken_newline)
        from "1.IH"(2) [OF adv [symmetric] Inr c nl this] show ?thesis .
      qed
    next
      case False
      from "1.prems" show ?thesis
        unfolding GetNextToken_token [OF adv' False]
        by (auto split: if_splits dest: handleStringToken_createToken
            handleNumberToken_createToken handleIdentifierToken_createToken)
    qed
  qed
qed

lemma GetNextToken_ColEnd:
  assumes "GetNextToken L lxr = Inr (tok, lxr')" and "TokType tok \<noteq> EOF"
  shows "ColEnd (TokPos tok) = ColStart (TokPos tok) + int (length (Lexeme tok)) - 1"
proof -
  from GetNextToken_createToken [OF assms(1)] obtain t pos xs where
    "tok = createToken t pos xs" by blast
  with assms(2) show ?thesis
    by (simp add: createToken_simps)
qed

lemma GetNextToken_first_rune:
  assumes "GetNextToken L lxr = Inr (tok, lxr')" and "TokType tok \<noteq> EOF"
    and "0 \<le> Column (Pos lxr)" and "1 < length (Lexeme tok)"
  shows "\<exists>ws q rest. (\<forall>r \<in> set ws. blank r)
           \<and> q = (if TokType tok = STR_tok then [0x22] else [])
           \<and> pending (Reader lxr) = ws @ q @ Lexeme tok @ rest
           \<and> TokenPosition.Line (TokPos tok) = LexerPosition.Line (cursor (Pos lxr) (ws @ q))
           \<and> ColStart (TokPos tok) = Column (cursor (Pos lxr) (ws @ q)) + 1"
  using assms
proof (induction L lxr rule: GetNextToken.induct)
  case (1 L lxr)
  obtain res lxr1 where adv: "advanceReader lxr = (res, lxr1)"
    by (cases "advanceReader lxr")
  show ?case
  proof (cases res)
    case (Inl err)
    with adv "1.prems" show ?thesis
      by (auto simp: GetNextToken_Inl createToken_simps split: if_splits)
  next
    case (Inr r)
    with adv have adv': "advanceReader lxr = (Inr r, lxr1)" by simp
    note rd = advanceReader_Inr [OF adv']
    show ?thesis
    proof (cases "blank r")
      case True
      show ?thesis
      proof (cases "r = 0x0A")
        case False
        with True have sp: "r = 0x20 \<or> r = 0x09" by (simp add: blank_def)
        then have sp': "r = rn CHR '' '' \<or> r = 9" by (simp add: rn_def)
        from "1.prems"(1) have g: "GetNextToken L lxr1 = Inr (tok, lxr')"
          by (simp add: GetNextToken_skip [OF adv' sp])
        from rd "1.prems"(3) have col: "0 \<le> Column (Pos lxr1)" by simp
        from "1.IH"(1) [OF adv [symmetric] Inr sp' g "1.prems"(2) col "1.prems"(4)]
        obtain ws q rest where ih: "\<forall>r \<in> set ws. blank r"
          "q = (if TokType tok = STR_tok then [0x22] else [])"
          "pending (Reader lxr1) = ws @ q @ Lexeme tok @ rest"
          "TokenPosition.Line (TokPos tok) = LexerPosition.Line (cursor (Pos lxr1) (ws @ q))"
          "ColStart (TokPos tok) = Column (cursor (Pos lxr1) (ws @ q)) + 1"
          by blast
        from ih True rd False have
          "\<forall>r \<in> set (r # ws). blank r"
          "pending (Reader lxr) = (r # ws) @ q @ Lexeme tok @ rest"
          "TokenPosition.Line (TokPos tok) = LexerPosition.Line (cursor (Pos lxr) ((r # ws) @ q))"
          "ColStart (TokPos tok) = Column (cursor (Pos lxr) ((r # ws) @ q)) + 1"
          by simp_all
        with ih(2) show ?thesis by blast
      next
        case nl: True
        have c: "\<not> (r = rn CHR '' '' \<or> r = 9)" "r \<noteq> rn CHR ''0''"
          using nl by (simp_all add: rn_def)
        from "1.prems"(1) adv' nl have g: "GetNextToken L (resetPosition lxr1) = Inr (tok, lxr')"
          by (simp add: GetNextToken_newline)
        have col: "0 \<le> Column (Pos (resetPosition lxr1))"
          by (simp add: resetPosition_simps)
        from "1.IH"(2) [OF adv [symmetric] Inr c nl g "1.prems"(2) col "1.prems"(4)]
        obtain ws q rest where ih: "\<forall>r \<in> set ws. blank r"
          "q = (if TokType tok = STR_tok then [0x22] else [])"
          "pending (Reader lxr1) = ws @ q @ Lexeme tok @ rest"
          "TokenPosition.Line (TokPos tok) =
             LexerPosition.Line (cursor (Pos (resetPosition lxr1)) (ws @ q))"
          "ColStart (TokPos tok) = Column (cursor (Pos (resetPosition lxr1)) (ws @ q)) + 1"
          by (auto simp: resetPosition_simps)
        from ih True rd nl have
          "\<forall>r \<in> set (r # ws). blank r"
          "pending (Reader lxr) = (r # ws) @ q @ Lexeme tok @ rest"
          "TokenPosition.Line (TokPos tok) = LexerPosition.Line (cursor (Pos lxr) ((r # ws) @ q))"
          "ColStart (TokPos tok) = Column (cursor (Pos lxr) ((r # ws) @ q)) + 1"
          by (simp_all add: resetPosition_simps)
        with ih(2) show ?thesis by blast
      qed
    next
      case False
      from rd "1.prems"(3) have col: "0 < Column (Pos lxr1)" by simp
      note tk = "1.prems"(1) [unfolded GetNextToken_token [OF adv' False]]
      consider (str) "r = 0x22" "handleStringToken lxr1 r = Inr (tok, lxr')"
        | (num) "r \<noteq> 0x22" "handleNumberToken lxr1 r = Inr (tok, lxr')"
        | (ident) "r \<noteq> 0x22" "handleIdentifierToken L lxr1 r = Inr (tok, lxr')"
        using tk "1.prems"(2,4)
        by (auto simp: createToken_simps split: if_splits)
      then show ?thesis
      proof cases
        case str
        from handleStringToken_position [OF str(2) "1.prems"(4)] obtain rest where
          "TokType tok = STR_tok" "pending (Reader lxr1) = Lexeme tok @ rest"
          "TokenPosition.Line (TokPos tok) = LexerPosition.Line (Pos lxr1)"
          "ColStart (TokPos tok) = Column (Pos lxr1) + 1"
          by blast
        with rd str(1) have
          "\<forall>r \<in> set ([]::rune list). blank r"
          "[0x22] = (if TokType tok = STR_tok then [0x22] else ([]::rune list))"
          "pending (Reader lxr) = [] @ [0x22] @ Lexeme tok @ rest"
          "TokenPosition.Line (TokPos tok) = LexerPosition.Line (cursor (Pos lxr) ([] @ [0x22]))"
          "ColStart (TokPos tok) = Column (cursor (Pos lxr) ([] @ [0x22])) + 1"
          by simp_all
        then show ?thesis by blast
      next
        case num
        from handleNumberToken_position [OF num(2) "1.prems"(4) _ col] rd obtain rest where
          "TokType tok \<noteq> STR_tok" "r # pending (Reader lxr1) = Lexeme tok @ rest"
          "TokenPosition.Line (TokPos tok) = LexerPosition.Line (Pos lxr1)"
          "ColStart (TokPos tok) = Column (Pos lxr1)"
          by blast
        with rd have
          "\<forall>r \<in> set ([]::rune list). blank r"
          "[] = (if TokType tok = STR_tok then [0x22] else ([]::rune list))"
          "pending (Reader lxr) = [] @ [] @ Lexeme tok @ rest"
          "TokenPosition.Line (TokPos tok) = LexerPosition.Line (cursor (Pos lxr) ([] @ []))"
          "ColStart (TokPos tok) = Column (cursor (Pos lxr) ([] @ [])) + 1"
          by simp_all
        then show ?thesis by blast
      next
        case ident
        from handleIdentifierToken_position [OF ident(2) "1.prems"(4) _ col] rd obtain rest where
          "TokType tok \<noteq> STR_tok" "r # pending (Reader lxr1) = Lexeme tok @ rest"
          "TokenPosition.Line (TokPos tok) = LexerPosition.Line (Pos lxr1)"
          "ColStart (TokPos tok) = Column (Pos lxr1)"
          by blast
        with rd have
          "\<forall>r \<in> set ([]::rune list). blank r"
          "[] = (if TokType tok = STR_tok then [0x22] else ([]::rune list))"
          "pending (Reader lxr) = [] @ [] @ Lexeme tok @ rest"
          "TokenPosition.Line (TokPos tok) = LexerPosition.Line (cursor (Pos lxr) ([] @ []))"
          "ColStart (TokPos tok) = Column (cursor (Pos lxr) ([] @ [])) + 1"
          by simp_all
        then show ?thesis by blast
      qed
    qed
  qed
qed

section \<open>Every token uses up input\<close>

lemma isNumberMaybe_not_space: "isNumberMaybe r \<Longrightarrow> \<not> IsSpace r"
  by (auto simp: isNumberMaybe_def IsSpace_def rn_def)

lemma letter_not_space: "letter_table L \<Longrightarrow> IsLetter L r \<Longrightarrow> \<not> IsSpace r"
  by (auto simp: IsLetter_def IsSpace_def letter_table_def split: if_splits)

lemma backupReader_cases:
  "lastRune (Reader lxr1) = Some r \<Longrightarrow>
     \<exists>lxr2. backupReader lxr1 = Inr lxr2
       \<and> (pending (Reader lxr2) = r # pending (Reader lxr1) \<or> lxr2 = lxr1)"
  by (simp add: backupReader_def UnreadRune_def)

lemma backupReader_length:
  "lastRune (Reader lxr1) = Some r \<Longrightarrow> backupReader lxr1 = Inr lxr2 \<Longrightarrow>
     length (pending (Reader lxr2)) \<le> Suc (length (pending (Reader lxr1)))"
  by (auto simp: backupReader_def UnreadRune_def split: if_splits)

lemma readNumber_loop_shorter:
  "readNumber_loop lxr num = Inr (res, lxr') \<Longrightarrow>
     length (pending (Reader lxr')) \<le> length (pending (Reader lxr))"
proof (induction lxr num rule: readNumber_loop.induct)
  case (1 lxr num)
  obtain res1 lxr1 where adv: "advanceReader lxr = (res1, lxr1)"
    by (cases "advanceReader lxr")
  show ?case
  proof (cases res1)
    case (Inl err)
    with adv "1.prems" show ?thesis
      by (auto simp: readNumber_loop.simps [of lxr] dest: advanceReader_Inl split: if_splits)
  next
    case (Inr r)
    with adv have adv': "advanceReader lxr = (Inr r, lxr1)" by simp
    note rd = advanceReader_Inr [OF adv']
    show ?thesis
    proof (cases "IsSpace r \<or> \<not> isNumberMaybe r")
      case True
      with adv' "1.prems" have "backupReader lxr1 = Inr lxr'"
        by (auto simp: readNumber_loop.simps [of lxr] split: sum.splits)
      from backupReader_length [OF _ this] rd show ?thesis
        by auto
    next
      case False
      from adv' False "1.prems" have "readNumber_loop lxr1 (num @ [r]) = Inr (res, lxr')"
        by (simp add: readNumber_loop.simps [of lxr])
      from "1.IH" [OF adv [symmetric] Inr False this] rd show ?thesis
        by simp
    qed
  qed
qed

lemma readIdentifier_loop_shorter:
  "readIdentifier_loop L lxr ident = Inr (res, lxr') \<Longrightarrow>
     length (pending (Reader lxr')) \<le> length (pending (Reader lxr))"
proof (induction L lxr ident rule: readIdentifier_loop.induct)
  case (1 L lxr ident)
  obtain res1 lxr1 where adv: "advanceReader lxr = (res1, lxr1)"
    by (cases "advanceReader lxr")
  show ?case
  proof (cases res1)
    case (Inl err)
    with adv "1.prems" show ?thesis
      by (auto simp: readIdentifier_loop.simps [of L lxr] dest: advanceReader_Inl
          split: if_splits)
  next
    case (Inr r)
    with adv have adv': "advanceReader lxr = (Inr r, lxr1)" by simp
    note rd = advanceReader_Inr [OF adv']
    show ?thesis
    proof (cases "IsSpace r \<or> \<not> IsLetter L r")
      case True
      with adv' "1.prems" have "backupReader lxr1 = Inr lxr'"
        by (auto simp: readIdentifier_loop.simps [of L lxr] split: sum.splits)
      from backupReader_length [OF _ this] rd show ?thesis
        by auto
    next
      case False
      from adv' False "1.prems"
      have "readIdentifier_loop L lxr1 (ident @ [r]) = Inr (res, lxr')"
        by (simp add: readIdentifier_loop.simps [of L lxr])
      from "1.IH" [OF adv [symmetric] Inr False this] rd show ?thesis
        by simp
    qed
  qed
qed

lemma readString_loop_shorter:
  "readString_loop lxr str = Inr (res, lxr') \<Longrightarrow>
     length (pending (Reader lxr')) \<le> length (pending (Reader lxr))"
proof (induction lxr str rule: readString_loop.induct)
  case (1 lxr str)
  obtain res1 lxr1 where adv: "advanceReader lxr = (res1, lxr1)"
    by (cases "advanceReader lxr")
  show ?case
  proof (cases res1)
    case (Inl err)
    with adv "1.prems" show ?thesis
      by (auto simp: readString_loop.simps [of lxr] dest: advanceReader_Inl split: if_splits)
  next
    case (Inr r)
    with adv have adv': "advanceReader lxr = (Inr r, lxr1)" by simp
    note rd = advanceReader_Inr [OF adv']
    consider (close) "r = 0x22" "str \<noteq> []" "last str \<noteq> 0x5C"
      | (escaped) "r = 0x22" "str \<noteq> []" "\<not> last str \<noteq> 0x5C"
      | (other) "r \<noteq> 0x22"
      | (empty) "r = 0x22" "str = []"
      by blast
    then show ?thesis
    proof cases
      case close
      with adv' "1.prems" rd show ?thesis
        by (auto simp: readString_loop.simps [of lxr])
    next
      case escaped
      with adv' "1.prems" have "readString_loop lxr1 (str @ [r]) = Inr (res, lxr')"
        by (simp add: readString_loop.simps [of lxr])
      from "1.IH"(1) [OF adv [symmetric] Inr escaped this] rd show ?thesis
        by simp
    next
      case other
      with adv' "1.prems" have "readString_loop lxr1 (str @ [r]) = Inr (res, lxr')"
        by (simp add: readString_loop.simps [of lxr])
      from "1.IH"(2) [OF adv [symmetric] Inr other this] rd show ?thesis
        by simp
    next
      case empty
      with adv' "1.prems" show ?thesis
        by (simp add: readString_loop.simps [of lxr])
    qed
  qed
qed


lemma handleStringToken_shorter:
  "handleStringToken lxr1 r = Inr (tok, lxr') \<Longrightarrow>
     length (pending (Reader lxr')) \<le> length (pending (Reader lxr1))"
  by (auto simp: handleStringToken_def readString_def Let_def
      split: sum.splits prod.splits if_splits dest: readString_loop_shorter)

lemma handleNumberToken_shorter:
  assumes "advanceReader lxr = (Inr r, lxr1)" and "isNumberMaybe r"
    and "handleNumberToken lxr1 r = Inr (tok, lxr')"
  shows "length (pending (Reader lxr')) < length (pending (Reader lxr))"
proof -
  note rd = advanceReader_Inr [OF assms(1)]
  from rd backupReader_cases [of lxr1 r] obtain lxr2 where
    b: "backupReader lxr1 = Inr lxr2"
    and alt: "pending (Reader lxr2) = r # pending (Reader lxr1) \<or> lxr2 = lxr1"
    by blast
  from b assms(3) obtain res where loop: "readNumber_loop lxr2 [] = Inr (res, lxr')"
    by (auto simp: handleNumberToken_def readNumber_def Let_def
        split: sum.splits prod.splits option.splits if_splits)
  show ?thesis
  proof (cases "lxr2 = lxr1")
    case False
    with alt have "pending (Reader lxr2) = r # pending (Reader lxr1)" by simp
    from advanceReader_Cons [OF this] obtain lxr3 where
      adv3: "advanceReader lxr2 = (Inr r, lxr3)" and p3: "pending (Reader lxr3) = pending (Reader lxr1)"
      by blast
    from assms(2) have "\<not> (IsSpace r \<or> \<not> isNumberMaybe r)"
      by (simp add: isNumberMaybe_not_space)
    with adv3 loop have "readNumber_loop lxr3 [r] = Inr (res, lxr')"
      by (simp add: readNumber_loop.simps [of lxr2])
    from readNumber_loop_shorter [OF this] p3 rd show ?thesis
      by simp
  next
    case True
    with readNumber_loop_shorter [OF loop] rd show ?thesis
      by simp
  qed
qed

lemma handleIdentifierToken_shorter:
  assumes "advanceReader lxr = (Inr r, lxr1)" and "IsLetter L r" and "letter_table L"
    and "handleIdentifierToken L lxr1 r = Inr (tok, lxr')"
  shows "length (pending (Reader lxr')) < length (pending (Reader lxr))"
proof -
  note rd = advanceReader_Inr [OF assms(1)]
  from rd backupReader_cases [of lxr1 r] obtain lxr2 where
    b: "backupReader lxr1 = Inr lxr2"
    and alt: "pending (Reader lxr2) = r # pending (Reader lxr1) \<or> lxr2 = lxr1"
    by blast
  from b assms(4) obtain res where loop: "readIdentifier_loop L lxr2 [] = Inr (res, lxr')"
    by (auto simp: handleIdentifierToken_def readIdentifier_def Let_def
        split: sum.splits prod.splits if_splits)
  show ?thesis
  proof (cases "lxr2 = lxr1")
    case False
    with alt have "pending (Reader lxr2) = r # pending (Reader lxr1)" by simp
    from advanceReader_Cons [OF this] obtain lxr3 where
      adv3: "advanceReader lxr2 = (Inr r, lxr3)" and p3: "pending (Reader lxr3) = pending (Reader lxr1)"
      by blast
    from assms(2,3) have "\<not> (IsSpace r \<or> \<not> IsLetter L r)"
      by (simp add: letter_not_space)
    with adv3 loop have "readIdentifier_loop L lxr3 [r] = Inr (res, lxr')"
      by (simp add: readIdentifier_loop.simps [of L lxr2])
    from readIdentifier_loop_shorter [OF this] p3 rd show ?thesis
      by simp
  next
    case True
    with readIdentifier_loop_shorter [OF loop] rd show ?thesis
      by simp
  qed
qed

lemma GetNextToken_shorter:
  assumes "letter_table L" and "GetNextToken L lxr = Inr (tok, lxr')" and "TokType tok \<noteq> EOF"
  shows "length (pending (Reader lxr')) < length (pending (Reader lxr))"
  using assms
proof (induction L lxr rule: GetNextToken.induct)
  case (1 L lxr)
  obtain res lxr1 where adv: "advanceReader lxr = (res, lxr1)"
    by (cases "advanceReader lxr")
  show ?case
  proof (cases res)
    case (Inl err)
    with adv "1.prems" show ?thesis
      by (auto simp: GetNextToken_Inl createToken_simps split: if_splits)
  next
    case (Inr r)
    with adv have adv': "advanceReader lxr = (Inr r, lxr1)" by simp
    note rd = advanceReader_Inr [OF adv']
    show ?thesis
    proof (cases "blank r")
      case True
      show ?thesis
      proof (cases "r = 0x0A")
        case False
        with True have sp: "r = 0x20 \<or> r = 0x09" by (simp add: blank_def)
        then have sp': "r = rn CHR '' '' \<or> r = 9" by (simp add: rn_def)
        from "1.prems"(2) have g: "GetNextToken L lxr1 = Inr (tok, lxr')"
          by (simp add: GetNextToken_skip [OF adv' sp])
        from "1.IH"(1) [OF adv [symmetric] Inr sp' "1.prems"(1) g "1.prems"(3)] rd
        show ?thesis by simp
      next
        case nl: True
        have c: "\<not> (r = rn CHR '' '' \<or> r = 9)" "r \<noteq> rn CHR ''0''"
          using nl by (simp_all add: rn_def)
        from "1.prems"(2) adv' nl have g: "GetNextToken L (resetPosition lxr1) = Inr (tok, lxr')"
          by (simp add: GetNextToken_newline)
        from "1.IH"(2) [OF adv [symmetric] Inr c nl "1.prems"(1) g "1.prems"(3)] rd
        show ?thesis by (simp add: resetPosition_simps)
      qed
    next
      case False
      note tk = "1.prems"(2) [unfolded GetNextToken_token [OF adv' False]]
      consider (one) "lxr' = lxr1"
        | (str) "handleStringToken lxr1 r = Inr (tok, lxr')"
        | (num) "isNumberMaybe r" "handleNumberToken lxr1 r = Inr (tok, lxr')"
        | (ident) "IsLetter L r" "handleIdentifierToken L lxr1 r = Inr (tok, lxr')"
        using tk by (auto split: if_splits)
      then show ?thesis
      proof cases
        case one
        with rd show ?thesis by simp
      next
        case str
        from handleStringToken_shorter [OF this] rd show ?thesis by simp
      next
        case num
        from handleNumberToken_shorter [OF adv' num] show ?thesis .
      next
        case ident
        from handleIdentifierToken_shorter [OF adv' ident(1) "1.prems"(1) ident(2)]
        show ?thesis .
      qed
    qed
  qed
qed

section \<open>The loop of Lex\<close>

lemma Lex_loop_returns:
  assumes "letter_table L"
  shows "\<exists>res. Lex_loop L lxr tokens = Some res"
proof (induction "length (pending (Reader lxr))" arbitrary: lxr tokens rule: less_induct)
  case less
  show ?case
  proof (cases "GetNextToken L lxr")
    case (Inl p)
    then show ?thesis
      by (simp add: Lex_loop.simps [of L lxr])
  next
    case (Inr a)
    obtain tok lxr' where a: "a = (tok, lxr')" by (cases a)
    show ?thesis
    proof (cases "TokType tok = EOF")
      case True
      with Inr a show ?thesis
        by (simp add: Lex_loop.simps [of L lxr])
    next
      case False
      from Inr a have "GetNextToken L lxr = Inr (tok, lxr')" by simp
      from GetNextToken_shorter [OF assms this False]
      have "\<exists>res. Lex_loop L lxr' (append_slice tokens tok) = Some res"
        by (rule less)
      with Inr a False show ?thesis
        by (simp add: Lex_loop.simps [of L lxr])
    qed
  qed
qed

lemma Lex_loop_no_EOF:
  assumes "Lex_loop L lxr tokens = Some res"
  shows "\<forall>out. res = Inr out \<longrightarrow> (\<forall>t \<in> set (elems tokens). TokType t \<noteq> EOF)
           \<longrightarrow> (\<forall>t \<in> set (elems out). TokType t \<noteq> EOF)"
  using assms
proof (induction L lxr tokens res rule: Lex_loop.raw_induct [rotated, consumes 1])
  case (1 Lex_loop L lxr tokens res)
  show ?case
  proof (cases "GetNextToken L lxr")
    case (Inl p)
    with "1.hyps" show ?thesis by auto
  next
    case (Inr a)
    obtain tok lxr' where a: "a = (tok, lxr')" by (cases a)
    show ?thesis
    proof (cases "TokType tok = EOF")
      case True
      with Inr a "1.hyps" show ?thesis by auto
    next
      case False
      with Inr a "1.hyps" have "Lex_loop L lxr' (append_slice tokens tok) = Some res"
        by simp
      from "1.IH" [OF this] False show ?thesis
        by (auto simp: append_slice_def)
    qed
  qed
qed

lemma letter_table_greek: "letter_table greek"
  by (auto simp: letter_table_def greek_def IsSpace_def)


section \<open>The column is never negative\<close>

lemma backupReader_Column:
  "backupReader lxr1 = Inr lxr2 \<Longrightarrow> 0 \<le> Column (Pos lxr1) \<Longrightarrow> 0 \<le> Column (Pos lxr2)"
  by (auto simp: backupReader_def UnreadRune_def split: if_splits option.splits)

lemma readNumber_loop_Column:
  "readNumber_loop lxr num = Inr (res, lxr') \<Longrightarrow> 0 \<le> Column (Pos lxr) \<Longrightarrow>
     0 \<le> Column (Pos lxr')"
proof (induction lxr num rule: readNumber_loop.induct)
  case (1 lxr num)
  obtain res1 lxr1 where adv: "advanceReader lxr = (res1, lxr1)"
    by (cases "advanceReader lxr")
  show ?case
  proof (cases res1)
    case (Inl err)
    with adv "1.prems" show ?thesis
      by (auto simp: readNumber_loop.simps [of lxr] dest: advanceReader_Inl split: if_splits)
  next
    case (Inr r)
    with adv have adv': "advanceReader lxr = (Inr r, lxr1)" by simp
    from advanceReader_Inr [OF adv'] "1.prems"(2) have col: "0 \<le> Column (Pos lxr1)"
      by simp
    show ?thesis
    proof (cases "IsSpace r \<or> \<not> isNumberMaybe r")
      case True
      with adv' "1.prems"(1) have "backupReader lxr1 = Inr lxr'"
        by (auto simp: readNumber_loop.simps [of lxr] split: sum.splits)
      from backupReader_Column [OF this col] show ?thesis .
    next
      case False
      from adv' False "1.prems"(1) have "readNumber_loop lxr1 (num @ [r]) = Inr (res, lxr')"
        by (simp add: readNumber_loop.simps [of lxr])
      from "1.IH" [OF adv [symmetric] Inr False this col] show ?thesis .
    qed
  qed
qed

lemma readIdentifier_loop_Column:
  "readIdentifier_loop L lxr ident = Inr (res, lxr') \<Longrightarrow> 0 \<le> Column (Pos lxr) \<Longrightarrow>
     0 \<le> Column (Pos lxr')"
proof (induction L lxr ident rule: readIdentifier_loop.induct)
  case (1 L lxr ident)
  obtain res1 lxr1 where adv: "advanceReader lxr = (res1, lxr1)"
    by (cases "advanceReader lxr")
  show ?case
  proof (cases res1)
    case (Inl err)
    with adv "1.prems" show ?thesis
      by (auto simp: readIdentifier_loop.simps [of L lxr] dest: advanceReader_Inl
          split: if_splits)
  next
    case (Inr r)
    with adv have adv': "advanceReader lxr = (Inr r, lxr1)" by simp
    from advanceReader_Inr [OF adv'] "1.prems"(2) have col: "0 \<le> Column (Pos lxr1)"
      by simp
    show ?thesis
    proof (cases "IsSpace r \<or> \<not> IsLetter L r")
      case True
      with adv' "1.prems"(1) have "backupReader lxr1 = Inr lxr'"
        by (auto simp: readIdentifier_loop.simps [of L lxr] split: sum.splits)
      from backupReader_Column [OF this col] show ?thesis .
    next
      case False
      from adv' False "1.prems"(1)
      have "readIdentifier_loop L lxr1 (ident @ [r]) = Inr (res, lxr')"
        by (simp add: readIdentifier_loop.simps [of L lxr])
      from "1.IH" [OF adv [symmetric] Inr False this col] show ?thesis .
    qed
  qed
qed

lemma readString_loop_Column:
  "readString_loop lxr str = Inr (res, lxr') \<Longrightarrow> 0 \<le> Column (Pos lxr) \<Longrightarrow>
     0 \<le> Column (Pos lxr')"
proof (induction lxr str rule: readString_loop.induct)
  case (1 lxr str)
  obtain res1 lxr1 where adv: "advanceReader lxr = (res1, lxr1)"
    by (cases "advanceReader lxr")
  show ?case
  proof (cases res1)
    case (Inl err)
    with adv "1.prems" show ?thesis
      by (auto simp: readString_loop.simps [of lxr] dest: advanceReader_Inl split: if_splits)
  next
    case (Inr r)
    with adv have adv': "advanceReader lxr = (Inr r, lxr1)" by simp
    from advanceReader_Inr [OF adv'] "1.prems"(2) have col: "0 \<le> Column (Pos lxr1)"
      by simp
    consider (close) "r = 0x22" "str \<noteq> []" "last str \<noteq> 0x5C"
      | (escaped) "r = 0x22" "str \<noteq> []" "\<not> last str \<noteq> 0x5C"
      | (other) "r \<noteq> 0x22"
      | (empty) "r = 0x22" "str = []"
      by blast
    then show ?thesis
    proof cases
      case close
      with adv' "1.prems"(1) col show ?thesis
        by (auto simp: readString_loop.simps [of lxr])
    next
      case escaped
      with adv' "1.prems"(1) have "readString_loop lxr1 (str @ [r]) = Inr (res, lxr')"
        by (simp add: readString_loop.simps [of lxr])
      from "1.IH"(1) [OF adv [symmetric] Inr escaped this col] show ?thesis .
    next
      case other
      with adv' "1.prems"(1) have "readString_loop lxr1 (str @ [r]) = Inr (res, lxr')"
        by (simp add: readString_loop.simps [of lxr])
      from "1.IH"(2) [OF adv [symmetric] Inr other this col] show ?thesis .
    next
      case empty
      with adv' "1.prems"(1) show ?thesis
        by (simp add: readString_loop.simps [of lxr])
    qed
  qed
qed

lemma handleStringToken_Column:
  "handleStringToken lxr1 r = Inr (tok, lxr') \<Longrightarrow> 0 \<le> Column (Pos lxr1) \<Longrightarrow>
     0 \<le> Column (Pos lxr')"
  by (auto simp: handleStringToken_def readString_def Let_def
      split: sum.splits prod.splits if_splits dest: readString_loop_Column)

lemma handleNumberToken_Column:
  "handleNumberToken lxr1 r = Inr (tok, lxr') \<Longrightarrow> 0 \<le> Column (Pos lxr1) \<Longrightarrow>
     0 \<le> Column (Pos lxr')"
  by (auto simp: handleNumberToken_def readNumber_def Let_def
      split: sum.splits prod.splits option.splits if_splits
      dest!: backupReader_Column dest: readNumber_loop_Column)

lemma handleIdentifierToken_Column:
  "handleIdentifierToken L lxr1 r = Inr (tok, lxr') \<Longrightarrow> 0 \<le> Column (Pos lxr1) \<Longrightarrow>
     0 \<le> Column (Pos lxr')"
  by (auto simp: handleIdentifierToken_def readIdentifier_def Let_def
      split: sum.splits prod.splits if_splits
      dest!: backupReader_Column dest: readIdentifier_loop_Column)

lemma GetNextToken_Column:
  "GetNextToken L lxr = Inr (tok, lxr') \<Longrightarrow> 0 \<le> Column (Pos lxr) \<Longrightarrow>
     0 \<le> Column (Pos lxr')"
proof (induction L lxr rule: GetNextToken.induct)
  case (1 L lxr)
  obtain res lxr1 where adv: "advanceReader lxr = (res, lxr1)"
    by (cases "advanceReader lxr")
  show ?case
  proof (cases res)
    case (Inl err)
    with adv "1.prems" show ?thesis
      by (auto simp: GetNextToken_Inl dest: advanceReader_Inl split: if_splits)
  next
    case (Inr r)
    with adv have adv': "advanceReader lxr = (Inr r, lxr1)" by simp
    from advanceReader_Inr [OF adv'] "1.prems"(2) have col: "0 \<le> Column (Pos lxr1)"
      by simp
    show ?thesis
    proof (cases "blank r")
      case True
      show ?thesis
      proof (cases "r = 0x0A")
        case False
        with True have sp: "r = 0x20 \<or> r = 0x09" by (simp add: blank_def)
        then have sp': "r = rn CHR '' '' \<or> r = 9" by (simp add: rn_def)
        from "1.prems"(1) have g: "GetNextToken L lxr1 = Inr (tok, lxr')"
          by (simp add: GetNextToken_skip [OF adv' sp])
        from "1.IH"(1) [OF adv [symmetric] Inr sp' g col] show ?thesis .
      next
        case nl: True
        have c: "\<not> (r = rn CHR '' '' \<or> r = 9)" "r \<noteq> rn CHR ''0''"
          using nl by (simp_all add: rn_def)
        from "1.prems"(1) adv' nl have g: "GetNextToken L (resetPosition lxr1) = Inr (tok, lxr')"
          by (simp add: GetNextToken_newline)
        have "0 \<le> Column (Pos (resetPosition lxr1))"
          by (simp add: resetPosition_simps)
        from "1.IH"(2) [OF adv [symmetric] Inr c nl g this] show ?thesis .
      qed
    next
      case False
      from "1.prems"(1) col show ?thesis
        unfolding GetNextToken_token [OF adv' False]
        by (auto split: if_splits dest: handleStringToken_Column handleNumberToken_Column
            handleIdentifierToken_Column)
    qed
  qed
qed

section \<open>Claims\<close>

text \<open>
  C1 (code defect). The claim: every input that conforms to the RFC 8259 grammar is lexed
  without an ILLEGAL token. The code on the JSON number \<open>1e+5\<close>: the number pattern of
  \<open>isValidJSONNumber\<close> accepts it, but \<open>isNumberMaybe\<close> has no \<open>+\<close>, so the run
  ends before the sign and the lexer returns ILLEGAL \<open>1e\<close>, ILLEGAL \<open>+\<close> and NUM \<open>5\<close>.
\<close>

theorem C1_exponent_plus_sign_is_ILLEGAL:
  "isValidJSONNumber (runes ''1e+5'') \<and>
   Lex_loop L (CreateLexer (runes ''1e+5'', io_EOF)) nil_slice =
     Some (Inr (Slice [\<lparr>TokType = ILLEGAL, Lexeme = runes ''1e'',
                         TokPos = \<lparr>TokenPosition.Line = 1, ColStart = 1, ColEnd = 2\<rparr>\<rparr>,
                       \<lparr>TokType = ILLEGAL, Lexeme = runes ''+'',
                         TokPos = \<lparr>TokenPosition.Line = 1, ColStart = 3, ColEnd = 3\<rparr>\<rparr>,
                       \<lparr>TokType = NUM, Lexeme = runes ''5'',
                         TokPos = \<lparr>TokenPosition.Line = 1, ColStart = 4, ColEnd = 4\<rparr>\<rparr>]))"
  by (simp add: Lex_loop.simps append_slice_def lexer_defs)

text \<open>
  C2 (corrected). The claim: \<open>GetNextToken\<close> never panics, and an I/O failure comes back
  as a result value. The code calls \<open>panic(err)\<close> when its own read fails with an error
  other than \<open>io.EOF\<close>: on an empty input whose read fails, it panics with that error.
\<close>

theorem C2_read_failure_panics_counterexample:
  "GetNextToken greek (CreateLexer ([], Err ''read failure'')) =
     Inl (PanicErr (Err ''read failure''))"
  by (simp add: lexer_defs)

text \<open>
  C2 as amended. Setting aside an input that opens, after blanks, with two double quotes
  in a row: \<open>GetNextToken\<close> panics exactly if only spaces, tabs and newlines are left and
  the read after them fails with an error other than \<open>io.EOF\<close>, and the panic carries
  that error; in every other case, whatever runes the input holds, it returns a token. A
  rune that starts no token (no blank, none of \<open>0 { } [ ] , :\<close> and the double quote, not
  a digit, \<open>-\<close>, \<open>.\<close>, \<open>e\<close> or \<open>E\<close>, not a letter) comes back as an ILLEGAL token that
  carries the rune and its position.
\<close>

theorem C2_GetNextToken_panics_only_on_read_failure:
  assumes "\<not> opens_empty_string (pending (Reader lxr))"
  shows "(if (\<forall>r \<in> set (pending (Reader lxr)). blank r) \<and> ending (Reader lxr) \<noteq> io_EOF
          then GetNextToken L lxr = Inl (PanicErr (ending (Reader lxr)))
          else \<exists>tok lxr'. GetNextToken L lxr = Inr (tok, lxr')) \<and>
         (\<forall>r rs. pending (Reader lxr) = r # rs \<and> \<not> blank r \<and> r \<notin> set (runes ''0{}[],:'')
            \<and> r \<noteq> 0x22 \<and> \<not> isNumberMaybe r \<and> \<not> IsLetter L r \<longrightarrow>
            (\<exists>lxr'. GetNextToken L lxr =
               Inr (createToken ILLEGAL ((Pos lxr)\<lparr>Column := Column (Pos lxr) + 1\<rparr>) [r], lxr')))"
proof (intro conjI allI impI)
  from assms
  show "if (\<forall>r \<in> set (pending (Reader lxr)). blank r) \<and> ending (Reader lxr) \<noteq> io_EOF
        then GetNextToken L lxr = Inl (PanicErr (ending (Reader lxr)))
        else \<exists>tok lxr'. GetNextToken L lxr = Inr (tok, lxr')"
    by (rule GetNextToken_outcome)
next
  fix r rs
  assume h: "pending (Reader lxr) = r # rs \<and> \<not> blank r \<and> r \<notin> set (runes ''0{}[],:'')
            \<and> r \<noteq> 0x22 \<and> \<not> isNumberMaybe r \<and> \<not> IsLetter L r"
  then obtain lxr1 where adv: "advanceReader lxr = (Inr r, lxr1)"
    and pos: "Pos lxr1 = (Pos lxr)\<lparr>Column := Column (Pos lxr) + 1\<rparr>"
    using advanceReader_Cons [of lxr r rs] by blast
  from h have nb: "\<not> blank r" by simp
  from h pos
  show "\<exists>lxr'. GetNextToken L lxr =
          Inr (createToken ILLEGAL ((Pos lxr)\<lparr>Column := Column (Pos lxr) + 1\<rparr>) [r], lxr')"
    by (simp add: GetNextToken_token [OF adv nb] runes_def)
qed

theorem C2_GetNextToken_panics_only_on_read_failure_witness:
  "\<not> opens_empty_string (pending (Reader (CreateLexer (runes ''@ {'', io_EOF)))) \<and>
   (\<exists>lxr'. GetNextToken greek (CreateLexer (runes ''@ {'', io_EOF)) =
      Inr (\<lparr>TokType = ILLEGAL, Lexeme = runes ''@'',
             TokPos = \<lparr>TokenPosition.Line = 1, ColStart = 1, ColEnd = 1\<rparr>\<rparr>, lxr')) \<and>
   \<not> opens_empty_string (pending (Reader (CreateLexer (runes '' '', Err ''read failure'')))) \<and>
   GetNextToken greek (CreateLexer (runes '' '', Err ''read failure'')) =
     Inl (PanicErr (Err ''read failure''))"
proof -
  let ?a = "CreateLexer (runes ''@ {'', io_EOF)"
  let ?b = "CreateLexer (runes '' '', Err ''read failure'')"
  have a: "\<not> opens_empty_string (pending (Reader ?a))"
    by (simp add: CreateLexer_def NewReader_def runes_def rn_def opens_empty_string_Cons
        opens_empty_string_Nil blank_def)
  have b: "\<not> opens_empty_string (pending (Reader ?b))"
    by (simp add: CreateLexer_def NewReader_def runes_def rn_def opens_empty_string_Cons
        opens_empty_string_Nil blank_def)
  have "pending (Reader ?a) = rn CHR ''@'' # runes '' {'' \<and> \<not> blank (rn CHR ''@'')
      \<and> rn CHR ''@'' \<notin> set (runes ''0{}[],:'') \<and> rn CHR ''@'' \<noteq> 0x22
      \<and> \<not> isNumberMaybe (rn CHR ''@'') \<and> \<not> IsLetter greek (rn CHR ''@'')"
    by (simp add: CreateLexer_def NewReader_def runes_def rn_def blank_def isNumberMaybe_def
        IsLetter_def)
  with C2_GetNextToken_panics_only_on_read_failure [OF a, of greek]
  have "\<exists>lxr'. GetNextToken greek ?a =
      Inr (createToken ILLEGAL ((Pos ?a)\<lparr>Column := Column (Pos ?a) + 1\<rparr>) [rn CHR ''@''], lxr')"
    by blast
  then have "\<exists>lxr'. GetNextToken greek ?a =
      Inr (\<lparr>TokType = ILLEGAL, Lexeme = runes ''@'',
             TokPos = \<lparr>TokenPosition.Line = 1, ColStart = 1, ColEnd = 1\<rparr>\<rparr>, lxr')"
    by (simp add: createToken_def CreateLexer_def runes_def)
  moreover from C2_GetNextToken_panics_only_on_read_failure [OF b, of greek]
  have "GetNextToken greek ?b = Inl (PanicErr (Err ''read failure''))"
    by (simp add: CreateLexer_def NewReader_def runes_def rn_def blank_def)
  ultimately show ?thesis
    using a b by blast
qed

text \<open>
  C3 (code defect). The claim: the input of two double quotes, the empty string literal,
  is lexed to one STR token with the empty lexeme, without an access out of range. The
  code: at the second quote \<open>readString\<close> evaluates \<open>str[len(str)-1]\<close> on the empty
  slice, and the program panics with an index out of range.
\<close>

theorem C3_empty_string_literal_panics:
  "GetNextToken L (CreateLexer ([0x22, 0x22], io_EOF)) = Inl IndexOutOfRange"
  by (simp add: lexer_defs)

text \<open>
  C4 (code defect). The claim: an EOF token is returned exactly when the input is used
  up, and a stream holds one EOF token, at its end. The code on \<open>0]\<close>: the \<open>case '0'\<close>
  of \<open>GetNextToken\<close> returns an EOF token at the digit zero while \<open>]\<close> is still to be
  read; the next call returns RBRACKET and the call after it a second EOF token.
\<close>

theorem C4_digit_zero_gives_EOF_before_end:
  "GetNextToken L (CreateLexer (runes ''0]'', io_EOF)) =
     Inr (\<lparr>TokType = EOF, Lexeme = runes ''EOF'',
            TokPos = \<lparr>TokenPosition.Line = 1, ColStart = 1, ColEnd = 1\<rparr>\<rparr>,
          \<lparr>Reader = \<lparr>pending = runes '']'', ending = io_EOF, lastRune = Some (rn CHR ''0'')\<rparr>,
            Pos = \<lparr>Line = 1, Column = 1\<rparr>\<rparr>) \<and>
   GetNextToken L \<lparr>Reader = \<lparr>pending = runes '']'', ending = io_EOF, lastRune = Some (rn CHR ''0'')\<rparr>,
                    Pos = \<lparr>Line = 1, Column = 1\<rparr>\<rparr> =
     Inr (\<lparr>TokType = RBRACKET, Lexeme = runes '']'',
            TokPos = \<lparr>TokenPosition.Line = 1, ColStart = 2, ColEnd = 2\<rparr>\<rparr>,
          \<lparr>Reader = \<lparr>pending = [], ending = io_EOF, lastRune = Some (rn CHR '']'')\<rparr>,
            Pos = \<lparr>Line = 1, Column = 2\<rparr>\<rparr>) \<and>
   GetNextToken L \<lparr>Reader = \<lparr>pending = [], ending = io_EOF, lastRune = Some (rn CHR '']'')\<rparr>,
                    Pos = \<lparr>Line = 1, Column = 2\<rparr>\<rparr> =
     Inr (\<lparr>TokType = EOF, Lexeme = runes ''EOF'',
            TokPos = \<lparr>TokenPosition.Line = 1, ColStart = 2, ColEnd = 2\<rparr>\<rparr>,
          \<lparr>Reader = \<lparr>pending = [], ending = io_EOF, lastRune = None\<rparr>,
            Pos = \<lparr>Line = 1, Column = 2\<rparr>\<rparr>)"
  by (simp add: lexer_defs)

text \<open>
  C5 (code defect). The claim: when the input ends before the closing double quote of a
  string, the lexer returns an ILLEGAL token with the runes collected so far. The code on
  the four runes quote, \<open>a\<close>, \<open>b\<close>, \<open>c\<close>: at \<open>io.EOF\<close> the loop of \<open>readString\<close>
  breaks as it does at a closing quote, no error is returned, and \<open>handleStringToken\<close>
  makes the STR token \<open>abc\<close>, the token of the closed string. The other strings that
  \<open>handleStringToken\<close> cannot finish it does turn into ILLEGAL tokens: a quote at the
  very end of the input, and a string whose read fails.
\<close>

theorem C5_unterminated_string_gives_STR:
  "GetNextToken L (CreateLexer (0x22 # runes ''abc'', io_EOF)) =
     Inr (\<lparr>TokType = STR_tok, Lexeme = runes ''abc'',
            TokPos = \<lparr>TokenPosition.Line = 1, ColStart = 2, ColEnd = 4\<rparr>\<rparr>,
          \<lparr>Reader = \<lparr>pending = [], ending = io_EOF, lastRune = None\<rparr>,
            Pos = \<lparr>Line = 1, Column = 4\<rparr>\<rparr>) \<and>
   GetNextToken L (CreateLexer ([0x22], io_EOF)) =
     Inr (\<lparr>TokType = ILLEGAL, Lexeme = [0x22],
            TokPos = \<lparr>TokenPosition.Line = 1, ColStart = 2, ColEnd = 2\<rparr>\<rparr>,
          \<lparr>Reader = \<lparr>pending = [], ending = io_EOF, lastRune = None\<rparr>,
            Pos = \<lparr>Line = 1, Column = 1\<rparr>\<rparr>) \<and>
   GetNextToken L (CreateLexer (0x22 # runes ''abc'', Err ''read failure'')) =
     Inr (\<lparr>TokType = ILLEGAL, Lexeme = [0x22],
            TokPos = \<lparr>TokenPosition.Line = 1, ColStart = 2, ColEnd = 2\<rparr>\<rparr>,
          \<lparr>Reader = \<lparr>pending = [], ending = Err ''read failure'', lastRune = None\<rparr>,
            Pos = \<lparr>Line = 1, Column = 4\<rparr>\<rparr>)"
  by (simp add: lexer_defs)

text \<open>
  C6 (code defect). The claim: a double quote closes the string exactly if an even number
  of backslashes stands right before it. The code looks at the one rune before the quote
  only. On the six runes quote, \<open>a\<close>, backslash, backslash, quote, \<open>]\<close> the second quote
  stands after two backslashes and should close the string, with the lexeme \<open>a\<close>,
  backslash, backslash; the code reads on to the end of the input and returns a STR token
  whose lexeme holds the five runes after the opening quote.
\<close>

theorem C6_quote_after_two_backslashes_does_not_close:
  "GetNextToken L (CreateLexer (0x22 # runes ''a'' @ [0x5C, 0x5C, 0x22] @ runes '']'', io_EOF)) =
     Inr (\<lparr>TokType = STR_tok, Lexeme = runes ''a'' @ [0x5C, 0x5C, 0x22] @ runes '']'',
            TokPos = \<lparr>TokenPosition.Line = 1, ColStart = 2, ColEnd = 6\<rparr>\<rparr>,
          \<lparr>Reader = \<lparr>pending = [], ending = io_EOF, lastRune = None\<rparr>,
            Pos = \<lparr>Line = 1, Column = 6\<rparr>\<rparr>)"
  by (simp add: lexer_defs)

text \<open>
  C7 (code defect). The claim: \<open>1.23e-10\<close> is lexed to NUM, and \<open>01\<close>, \<open>-1.2.3\<close> and
  \<open>e10\<close> each to an ILLEGAL token that carries the whole run. The code does so for the
  first, the third and the fourth; on \<open>01\<close> the \<open>case '0'\<close> of \<open>GetNextToken\<close> returns
  an EOF token with the lexeme \<open>EOF\<close> and leaves \<open>1\<close> unread.
\<close>

theorem C7_leading_zero_gives_EOF:
  "GetNextToken L (CreateLexer (runes ''01'', io_EOF)) =
     Inr (\<lparr>TokType = EOF, Lexeme = runes ''EOF'',
            TokPos = \<lparr>TokenPosition.Line = 1, ColStart = 1, ColEnd = 1\<rparr>\<rparr>,
          \<lparr>Reader = \<lparr>pending = runes ''1'', ending = io_EOF, lastRune = Some (rn CHR ''0'')\<rparr>,
            Pos = \<lparr>Line = 1, Column = 1\<rparr>\<rparr>) \<and>
   GetNextToken L (CreateLexer (runes ''1.23e-10'', io_EOF)) =
     Inr (\<lparr>TokType = NUM, Lexeme = runes ''1.23e-10'',
            TokPos = \<lparr>TokenPosition.Line = 1, ColStart = 1, ColEnd = 8\<rparr>\<rparr>,
          \<lparr>Reader = \<lparr>pending = [], ending = io_EOF, lastRune = None\<rparr>,
            Pos = \<lparr>Line = 1, Column = 8\<rparr>\<rparr>) \<and>
   GetNextToken L (CreateLexer (runes ''-1.2.3'', io_EOF)) =
     Inr (\<lparr>TokType = ILLEGAL, Lexeme = runes ''-1.2.3'',
            TokPos = \<lparr>TokenPosition.Line = 1, ColStart = 1, ColEnd = 6\<rparr>\<rparr>,
          \<lparr>Reader = \<lparr>pending = [], ending = io_EOF, lastRune = None\<rparr>,
            Pos = \<lparr>Line = 1, Column = 6\<rparr>\<rparr>) \<and>
   GetNextToken L (CreateLexer (runes ''e10'', io_EOF)) =
     Inr (\<lparr>TokType = ILLEGAL, Lexeme = runes ''e10'',
            TokPos = \<lparr>TokenPosition.Line = 1, ColStart = 1, ColEnd = 3\<rparr>\<rparr>,
          \<lparr>Reader = \<lparr>pending = [], ending = io_EOF, lastRune = None\<rparr>,
            Pos = \<lparr>Line = 1, Column = 3\<rparr>\<rparr>)"
  by (simp add: lexer_defs)

text \<open>
  C8 (confirmed). Every token that \<open>GetNextToken\<close> returns, other than the EOF token, has
  \<open>ColEnd = ColStart + width - 1\<close>, where the width is the number of runes of its lexeme.
  If the lexer started at a column that is not negative and the lexeme has more than one
  rune, the lexeme stands in the input after the blanks that were skipped (and, for a string,
  after its opening quote), and the token's line and starting column are those of the first
  rune of the lexeme: one column after the cursor that has gone over what precedes it.
  The column is 0 in a new lexer and no call of \<open>GetNextToken\<close> makes it negative.
  Lexing \<open>{}\<close> gives LBRACE at line 1, columns 1 to 1, RBRACE at line 1, columns 2 to 2,
  and then the EOF token.
\<close>

theorem C8_token_position:
  "(\<forall>lxr tok lxr'. GetNextToken L lxr = Inr (tok, lxr') \<and> TokType tok \<noteq> EOF \<longrightarrow>
      ColEnd (TokPos tok) = ColStart (TokPos tok) + int (length (Lexeme tok)) - 1 \<and>
      (0 \<le> Column (Pos lxr) \<and> 1 < length (Lexeme tok) \<longrightarrow>
        (\<exists>ws q rest. (\<forall>r \<in> set ws. blank r)
           \<and> q = (if TokType tok = STR_tok then [0x22] else [])
           \<and> pending (Reader lxr) = ws @ q @ Lexeme tok @ rest
           \<and> TokenPosition.Line (TokPos tok) = LexerPosition.Line (cursor (Pos lxr) (ws @ q))
           \<and> ColStart (TokPos tok) = Column (cursor (Pos lxr) (ws @ q)) + 1))) \<and>
   Column (Pos (CreateLexer src)) = 0 \<and>
   (\<forall>lxr tok lxr'. GetNextToken L lxr = Inr (tok, lxr') \<and> 0 \<le> Column (Pos lxr) \<longrightarrow>
      0 \<le> Column (Pos lxr')) \<and>
   GetNextToken L (CreateLexer (runes ''{}'', io_EOF)) =
     Inr (\<lparr>TokType = LBRACE, Lexeme = runes ''{'',
            TokPos = \<lparr>TokenPosition.Line = 1, ColStart = 1, ColEnd = 1\<rparr>\<rparr>,
          \<lparr>Reader = \<lparr>pending = runes ''}'', ending = io_EOF, lastRune = Some (rn CHR ''{'')\<rparr>,
            Pos = \<lparr>Line = 1, Column = 1\<rparr>\<rparr>) \<and>
   GetNextToken L \<lparr>Reader = \<lparr>pending = runes ''}'', ending = io_EOF, lastRune = Some (rn CHR ''{'')\<rparr>,
                    Pos = \<lparr>Line = 1, Column = 1\<rparr>\<rparr> =
     Inr (\<lparr>TokType = RBRACE, Lexeme = runes ''}'',
            TokPos = \<lparr>TokenPosition.Line = 1, ColStart = 2, ColEnd = 2\<rparr>\<rparr>,
          \<lparr>Reader = \<lparr>pending = [], ending = io_EOF, lastRune = Some (rn CHR ''}'')\<rparr>,
            Pos = \<lparr>Line = 1, Column = 2\<rparr>\<rparr>) \<and>
   GetNextToken L \<lparr>Reader = \<lparr>pending = [], ending = io_EOF, lastRune = Some (rn CHR ''}'')\<rparr>,
                    Pos = \<lparr>Line = 1, Column = 2\<rparr>\<rparr> =
     Inr (\<lparr>TokType = EOF, Lexeme = runes ''EOF'',
            TokPos = \<lparr>TokenPosition.Line = 1, ColStart = 2, ColEnd = 2\<rparr>\<rparr>,
          \<lparr>Reader = \<lparr>pending = [], ending = io_EOF, lastRune = None\<rparr>,
            Pos = \<lparr>Line = 1, Column = 2\<rparr>\<rparr>)"
proof -
  have general: "ColEnd (TokPos tok) = ColStart (TokPos tok) + int (length (Lexeme tok)) - 1 \<and>
      (0 \<le> Column (Pos lxr) \<and> 1 < length (Lexeme tok) \<longrightarrow>
        (\<exists>ws q rest. (\<forall>r \<in> set ws. blank r)
           \<and> q = (if TokType tok = STR_tok then [0x22] else [])
           \<and> pending (Reader lxr) = ws @ q @ Lexeme tok @ rest
           \<and> TokenPosition.Line (TokPos tok) = LexerPosition.Line (cursor (Pos lxr) (ws @ q))
           \<and> ColStart (TokPos tok) = Column (cursor (Pos lxr) (ws @ q)) + 1))"
    if "GetNextToken L lxr = Inr (tok, lxr')" and "TokType tok \<noteq> EOF" for lxr tok lxr'
    using GetNextToken_ColEnd [OF that] GetNextToken_first_rune [OF that]
    by blast
  have braces: "GetNextToken L (CreateLexer (runes ''{}'', io_EOF)) =
     Inr (\<lparr>TokType = LBRACE, Lexeme = runes ''{'',
            TokPos = \<lparr>TokenPosition.Line = 1, ColStart = 1, ColEnd = 1\<rparr>\<rparr>,
          \<lparr>Reader = \<lparr>pending = runes ''}'', ending = io_EOF, lastRune = Some (rn CHR ''{'')\<rparr>,
            Pos = \<lparr>Line = 1, Column = 1\<rparr>\<rparr>)"
    "GetNextToken L \<lparr>Reader = \<lparr>pending = runes ''}'', ending = io_EOF, lastRune = Some (rn CHR ''{'')\<rparr>,
                    Pos = \<lparr>Line = 1, Column = 1\<rparr>\<rparr> =
     Inr (\<lparr>TokType = RBRACE, Lexeme = runes ''}'',
            TokPos = \<lparr>TokenPosition.Line = 1, ColStart = 2, ColEnd = 2\<rparr>\<rparr>,
          \<lparr>Reader = \<lparr>pending = [], ending = io_EOF, lastRune = Some (rn CHR ''}'')\<rparr>,
            Pos = \<lparr>Line = 1, Column = 2\<rparr>\<rparr>)"
    "GetNextToken L \<lparr>Reader = \<lparr>pending = [], ending = io_EOF, lastRune = Some (rn CHR ''}'')\<rparr>,
                    Pos = \<lparr>Line = 1, Column = 2\<rparr>\<rparr> =
     Inr (\<lparr>TokType = EOF, Lexeme = runes ''EOF'',
            TokPos = \<lparr>TokenPosition.Line = 1, ColStart = 2, ColEnd = 2\<rparr>\<rparr>,
          \<lparr>Reader = \<lparr>pending = [], ending = io_EOF, lastRune = None\<rparr>,
            Pos = \<lparr>Line = 1, Column = 2\<rparr>\<rparr>)"
    by (simp_all add: lexer_defs)
  have start: "Column (Pos (CreateLexer src)) = 0"
    by (simp add: CreateLexer_def)
  have column: "0 \<le> Column (Pos lxr')"
    if "GetNextToken L lxr = Inr (tok, lxr')" and "0 \<le> Column (Pos lxr)" for lxr tok lxr'
    using that by (rule GetNextToken_Column)
  from general start column braces show ?thesis
    by blast
qed

theorem C8_token_position_witness:
  "GetNextToken greek (CreateLexer ([0x0A, 0x20] @ runes ''12.5,'', io_EOF)) =
     Inr (\<lparr>TokType = NUM, Lexeme = runes ''12.5'',
            TokPos = \<lparr>TokenPosition.Line = 2, ColStart = 2, ColEnd = 5\<rparr>\<rparr>,
          \<lparr>Reader = \<lparr>pending = runes '','', ending = io_EOF, lastRune = None\<rparr>,
            Pos = \<lparr>Line = 2, Column = 5\<rparr>\<rparr>) \<and>
   (5::int) = 2 + int (length (runes ''12.5'')) - 1 \<and>
   (\<exists>ws rest. [0x0A, 0x20] @ runes ''12.5,'' = ws @ runes ''12.5'' @ rest
      \<and> LexerPosition.Line (cursor \<lparr>Line = 1, Column = 0\<rparr> ws) = 2
      \<and> Column (cursor \<lparr>Line = 1, Column = 0\<rparr> ws) + 1 = 2)"
proof -
  let ?lxr = "CreateLexer ([0x0A, 0x20] @ runes ''12.5,'', io_EOF)"
  let ?tok = "\<lparr>TokType = NUM, Lexeme = runes ''12.5'',
            TokPos = \<lparr>TokenPosition.Line = 2, ColStart = 2, ColEnd = 5\<rparr>\<rparr>"
  let ?lxr' = "\<lparr>Reader = \<lparr>pending = runes '','', ending = io_EOF, lastRune = None\<rparr>,
            Pos = \<lparr>Line = 2, Column = 5\<rparr>\<rparr>"
  have run: "GetNextToken greek ?lxr = Inr (?tok, ?lxr')"
    by (simp add: lexer_defs)
  have pre: "TokType ?tok \<noteq> EOF" "0 \<le> Column (Pos ?lxr)" "1 < length (Lexeme ?tok)"
    by (simp_all add: CreateLexer_def runes_def)
  from C8_token_position [of greek, THEN conjunct1, rule_format, of ?lxr ?tok ?lxr'] run pre
  have "ColEnd (TokPos ?tok) = ColStart (TokPos ?tok) + int (length (Lexeme ?tok)) - 1"
    and "\<exists>ws q rest. (\<forall>r \<in> set ws. blank r)
           \<and> q = (if TokType ?tok = STR_tok then [0x22] else [])
           \<and> pending (Reader ?lxr) = ws @ q @ Lexeme ?tok @ rest
           \<and> TokenPosition.Line (TokPos ?tok) = LexerPosition.Line (cursor (Pos ?lxr) (ws @ q))
           \<and> ColStart (TokPos ?tok) = Column (cursor (Pos ?lxr) (ws @ q)) + 1"
    by blast+
  then have "(5::int) = 2 + int (length (runes ''12.5'')) - 1"
    and "\<exists>ws rest. [0x0A, 0x20] @ runes ''12.5,'' = ws @ runes ''12.5'' @ rest
      \<and> LexerPosition.Line (cursor \<lparr>Line = 1, Column = 0\<rparr> ws) = 2
      \<and> Column (cursor \<lparr>Line = 1, Column = 0\<rparr> ws) + 1 = 2"
    by (auto simp: CreateLexer_def NewReader_def)
  with run show ?thesis
    by blast
qed

text \<open>
  C9 (confirmed). The token slice that \<open>Lex\<close> returns holds no token of type EOF: its
  loop ends at the first EOF token without appending it. And \<open>Lex\<close> does return, for
  every file system and path, when no rune of the letter table is white space, as in
  Unicode.
\<close>

theorem C9_Lex_returns_no_EOF_token:
  "(\<forall>out tokens. Lex L fs filePath = Some (Inr (out, tokens)) \<longrightarrow>
      (\<forall>tok \<in> set (elems tokens). TokType tok \<noteq> EOF)) \<and>
   (letter_table L \<longrightarrow> (\<exists>res. Lex L fs filePath = Some res))"
proof (intro conjI allI impI)
  fix out tokens
  assume lex: "Lex L fs filePath = Some (Inr (out, tokens))"
  show "\<forall>tok \<in> set (elems tokens). TokType tok \<noteq> EOF"
  proof (cases "os_Open fs filePath")
    case (Inl err)
    with lex show ?thesis
      by (auto simp: Lex_def)
  next
    case (Inr f)
    with lex have "Lex_loop L (CreateLexer f) nil_slice = Some (Inr tokens)"
      by (auto simp: Lex_def split: option.splits sum.splits)
    from Lex_loop_no_EOF [OF this] show ?thesis
      by simp
  qed
next
  assume tab: "letter_table L"
  show "\<exists>res. Lex L fs filePath = Some res"
  proof (cases "os_Open fs filePath")
    case (Inl err)
    then show ?thesis
      by (simp add: Lex_def)
  next
    case (Inr f)
    from Lex_loop_returns [OF tab] obtain res where
      "Lex_loop L (CreateLexer f) nil_slice = Some res" by blast
    with Inr show ?thesis
      by (cases res) (simp_all add: Lex_def)
  qed
qed

theorem C9_Lex_returns_no_EOF_token_witness:
  "letter_table greek \<and>
   Lex greek (\<lambda>p. Inr (runes ''[1]'', io_EOF)) ''a.json'' =
     Some (Inr ([], Slice [\<lparr>TokType = LBRACKET, Lexeme = runes ''['',
                             TokPos = \<lparr>TokenPosition.Line = 1, ColStart = 1, ColEnd = 1\<rparr>\<rparr>,
                           \<lparr>TokType = NUM, Lexeme = runes ''1'',
                             TokPos = \<lparr>TokenPosition.Line = 1, ColStart = 2, ColEnd = 2\<rparr>\<rparr>,
                           \<lparr>TokType = RBRACKET, Lexeme = runes '']'',
                             TokPos = \<lparr>TokenPosition.Line = 1, ColStart = 3, ColEnd = 3\<rparr>\<rparr>])) \<and>
   EOF \<notin> TokType ` set [\<lparr>TokType = LBRACKET, Lexeme = runes ''['',
                       TokPos = \<lparr>TokenPosition.Line = 1, ColStart = 1, ColEnd = 1\<rparr>\<rparr>,
                     \<lparr>TokType = NUM, Lexeme = runes ''1'',
                       TokPos = \<lparr>TokenPosition.Line = 1, ColStart = 2, ColEnd = 2\<rparr>\<rparr>,
                     \<lparr>TokType = RBRACKET, Lexeme = runes '']'',
                       TokPos = \<lparr>TokenPosition.Line = 1, ColStart = 3, ColEnd = 3\<rparr>\<rparr>]"
proof -
  let ?fs = "\<lambda>p::string. Inr (runes ''[1]'', io_EOF) :: go_error + rune list \<times> go_error"
  let ?toks = "[\<lparr>TokType = LBRACKET, Lexeme = runes ''['',
                       TokPos = \<lparr>TokenPosition.Line = 1, ColStart = 1, ColEnd = 1\<rparr>\<rparr>,
                     \<lparr>TokType = NUM, Lexeme = runes ''1'',
                       TokPos = \<lparr>TokenPosition.Line = 1, ColStart = 2, ColEnd = 2\<rparr>\<rparr>,
                     \<lparr>TokType = RBRACKET, Lexeme = runes '']'',
                       TokPos = \<lparr>TokenPosition.Line = 1, ColStart = 3, ColEnd = 3\<rparr>\<rparr>]"
  have run: "Lex greek ?fs ''a.json'' = Some (Inr ([], Slice ?toks))"
    by (simp add: Lex_def os_Open_def Lex_loop.simps append_slice_def lexer_defs)
  from C9_Lex_returns_no_EOF_token [of greek ?fs "''a.json''"] run
  have "\<forall>tok \<in> set (elems (Slice ?toks)). TokType tok \<noteq> EOF"
    by blast
  then have "EOF \<notin> TokType ` set ?toks"
    by auto
  with run letter_table_greek show ?thesis
    by blast
qed

text \<open>
  C10 (corrected). The claim: if the file cannot be opened, \<open>Lex\<close> returns the empty
  token slice and no error, and the result cannot be told from the result for an empty
  file. The code returns \<open>[]Token{}\<close>, an empty slice that is not nil, when the file does
  not open, and the variable \<open>tokens\<close>, still the nil slice, for an empty file: a caller
  tells the two apart by comparing with nil.
\<close>

theorem C10_open_failure_differs_from_empty_file_counterexample:
  "Lex greek no_files ''a.json'' =
     Some (Inr ([''Error opening file: open a.json: no such file or directory''], Slice [])) \<and>
   Lex greek empty_files ''a.json'' = Some (Inr ([], nil_slice)) \<and>
   \<not> is_nil (Slice [] :: Token slice) \<and> is_nil (nil_slice :: Token slice)"
  by (simp add: Lex_def os_Open_def no_files_def empty_files_def is_nil_def Lex_loop.simps
      lexer_defs)

text \<open>
  C10 as amended. If the file cannot be opened, \<open>Lex\<close> returns the empty token slice
  \<open>[]Token{}\<close> and no error (it prints one line to standard output). The result for an
  empty file is the nil slice. The two have the same length, 0, and the same elements,
  none; they differ in that only the second is nil.
\<close>

theorem C10_Lex_open_failure_returns_empty:
  assumes "os_Open fs filePath = Inl err"
  shows "\<exists>s s'. Lex L fs filePath = Some (Inr ([''Error opening file: '' @ Error err], s)) \<and>
           Lex L (fs(filePath := Inr ([], io_EOF))) filePath = Some (Inr ([], s')) \<and>
           s = Slice [] \<and> s' = nil_slice \<and>
           len s = 0 \<and> len s' = 0 \<and> elems s = elems s' \<and> \<not> is_nil s \<and> is_nil s'"
  using assms
  by (simp add: Lex_def os_Open_def Lex_loop.simps len_def is_nil_def lexer_defs)

theorem C10_Lex_open_failure_returns_empty_witness:
  "os_Open no_files ''a.json'' = Inl (Err ''open a.json: no such file or directory'') \<and>
   Lex greek no_files ''a.json'' =
     Some (Inr ([''Error opening file: open a.json: no such file or directory''], Slice [])) \<and>
   Lex greek (no_files(''a.json'' := Inr ([], io_EOF))) ''a.json'' = Some (Inr ([], nil_slice)) \<and>
   len (Slice [] :: Token slice) = 0 \<and> len (nil_slice :: Token slice) = 0"
proof -
  have a: "os_Open no_files ''a.json'' = Inl (Err ''open a.json: no such file or directory'')"
    by (simp add: os_Open_def no_files_def)
  from C10_Lex_open_failure_returns_empty [OF a, of greek] a show ?thesis
    by auto
qed

end
